theory Spec2Isabelle
  imports Main
begin

section \<open>The explanation cache of the extension host\<close>

text \<open>
  \<^verbatim>\<open>src/extension.ts\<close> keeps the explanations it has fetched in a JavaScript
  \<^verbatim>\<open>Map<string, string>\<close>; the panel keeps its pending answers in another
  \<^verbatim>\<open>Map\<close>. A \<^verbatim>\<open>Map\<close> iterates its keys in the order of their first
  insertion, holds every key once, and \<^verbatim>\<open>set\<close> on a key that is present replaces the
  value where the key stands. The model is an association list in insertion order, the
  oldest key first.
\<close>

type_synonym 'v js_map = "(string \<times> 'v) list"

definition MAX_CACHE :: nat where
  "MAX_CACHE = 1000"

definition map_has :: "'v js_map \<Rightarrow> string \<Rightarrow> bool" where
  "map_has m k = (k \<in> set (map fst m))"

definition map_get :: "'v js_map \<Rightarrow> string \<Rightarrow> 'v option" where
  "map_get m k = map_of m k"

fun map_set :: "string \<Rightarrow> 'v \<Rightarrow> 'v js_map \<Rightarrow> 'v js_map" where
  "map_set k v [] = [(k, v)]"
| "map_set k v ((k', v') # m) =
     (if k' = k then (k', v) # m else (k', v') # map_set k v m)"

definition map_delete :: "string \<Rightarrow> 'v js_map \<Rightarrow> 'v js_map" where
  "map_delete k m = filter (\<lambda>e. fst e \<noteq> k) m"

text \<open>\<^verbatim>\<open>m.keys().next().value\<close>: the first key, \<^verbatim>\<open>undefined\<close> (here \<open>None\<close>) on an
  empty map.\<close>

definition first_key :: "'v js_map \<Rightarrow> string option" where
  "first_key m = (case m of [] \<Rightarrow> None | e # _ \<Rightarrow> Some (fst e))"

text \<open>
  The three statements of \<^verbatim>\<open>handleExplain\<close> that store an explanation:
  \<^verbatim>\<open>
    explanationCache.set(cacheKey, data.detail);
    if (explanationCache.size > MAX_CACHE) {
      const first = explanationCache.keys().next().value;
      if (first !== undefined) explanationCache.delete(first);
    }
  \<close>
  The source compares with the constant \<^verbatim>\<open>MAX_CACHE\<close>; \<open>cache_put\<close> takes the bound as
  its first argument, and the extension runs \<open>cache_put MAX_CACHE\<close>.
\<close>

definition cache_put :: "nat \<Rightarrow> string \<Rightarrow> string \<Rightarrow> string js_map \<Rightarrow> string js_map" where
  "cache_put cap k v m =
     (let m1 = map_set k v m in
      if length m1 > cap then
        (case first_key m1 of None \<Rightarrow> m1 | Some first \<Rightarrow> map_delete first m1)
      else m1)"

text \<open>A run of stores, in order.\<close>

fun cache_puts :: "nat \<Rightarrow> (string \<times> string) list \<Rightarrow> string js_map \<Rightarrow> string js_map" where
  "cache_puts cap [] m = m"
| "cache_puts cap ((k, v) # kvs) m = cache_puts cap kvs (cache_put cap k v m)"

text \<open>
  The backend's answer as \<^verbatim>\<open>handleExplain\<close> reads it (\<^verbatim>\<open>ExplainResponse\<close>, every field
  but \<^verbatim>\<open>ok\<close> optional), and what the user gets to see.
\<close>

record ExplainResponse =
  ok :: bool
  summary :: "string option"
  detail :: "string option"
  error :: "string option"

datatype shown =
    Nothing
  | ShowResult string string string
  | ShowWarning string
  | ShowError string

definition cacheKey :: "string \<Rightarrow> string \<Rightarrow> string" where
  "cacheKey term' languageId = term' @ ''::'' @ languageId"

text \<open>
  The text of an error message: a cross mark, \<^verbatim>\<open> Backend error: \<close> and what
  \<^verbatim>\<open>err?.message || String(err)\<close> gives for the error. The cross mark U+274C is beyond
  the code units of \<open>char\<close>; it is written as the three bytes of its UTF-8 encoding.
\<close>

definition backend_error :: "string \<Rightarrow> string" where
  "backend_error e = [CHR 0xE2, CHR 0x9D, CHR 0x8C] @ '' Backend error: '' @ e"

text \<open>
  \<^verbatim>\<open>handleExplain\<close>, with the cache passed in and returned. \<open>reply\<close> is what
  \<^verbatim>\<open>postJson\<close> gives for this request: \<open>Inl e\<close> when it rejects, \<open>Inr None\<close> for a
  body that parsed to \<^verbatim>\<open>null\<close>, \<open>Inr (Some data)\<close> otherwise. It is only consulted on a
  cache miss. The cache holds strings, so \<^verbatim>\<open>has\<close> followed by \<^verbatim>\<open>get\<close> is one lookup.
\<close>

definition handleExplain ::
  "bool \<Rightarrow> (string + ExplainResponse option) \<Rightarrow> string \<Rightarrow> string \<Rightarrow> string js_map
     \<Rightarrow> string js_map \<times> shown"
where
  "handleExplain enabled reply term' languageId cache =
     (if \<not> enabled then (cache, Nothing)
      else
        (case map_get cache (cacheKey term' languageId) of
           Some md \<Rightarrow> (cache, ShowResult term' languageId md)
         | None \<Rightarrow>
             (case reply of
                Inl e \<Rightarrow> (cache, ShowError (backend_error e))
              | Inr None \<Rightarrow> (cache, ShowWarning ''AI Mentor: No explanation available.'')
              | Inr (Some data) \<Rightarrow>
                  (case (if ok data then detail data else None) of
                     Some (c # cs) \<Rightarrow>
                       (cache_put MAX_CACHE (cacheKey term' languageId) (c # cs) cache,
                        ShowResult term' languageId (c # cs))
                   | _ \<Rightarrow>
                       (cache,
                        ShowWarning
                          (''AI Mentor: '' @
                           (case error data of
                              Some (c # cs) \<Rightarrow> c # cs
                            | _ \<Rightarrow> ''No explanation available.'')))))))"


section \<open>JavaScript values and strings\<close>

text \<open>
  Strings are \<open>char list\<close>: one \<open>char\<close> stands for one code unit in the range 0 to
  255. The values that travel between backend, extension host and panel are what
  \<^verbatim>\<open>JSON.parse\<close> produces. A number is named by its decimal rendering, the string that
  \<^verbatim>\<open>String(n)\<close> gives (\<open>JNum ''0''\<close> is zero), so no floating point arithmetic is needed
  to print or to test it. \<^verbatim>\<open>undefined\<close> is \<open>None\<close> of \<open>json option\<close>.
\<close>

datatype json =
    JNull
  | JBool bool
  | JNum string
  | JStr string
  | JArr "json list"
  | JObj "(string \<times> json) list"

text \<open>\<^verbatim>\<open>ToBoolean\<close>, as \<^verbatim>\<open>!x\<close>, \<^verbatim>\<open>x || y\<close> and \<^verbatim>\<open>if (x)\<close> apply it.\<close>

fun truthy :: "json \<Rightarrow> bool" where
  "truthy JNull = False"
| "truthy (JBool b) = b"
| "truthy (JNum n) = (n \<noteq> ''0'' \<and> n \<noteq> ''NaN'')"
| "truthy (JStr s) = (s \<noteq> [])"
| "truthy (JArr xs) = True"
| "truthy (JObj kvs) = True"

definition truthy_opt :: "json option \<Rightarrow> bool" where
  "truthy_opt x = (case x of None \<Rightarrow> False | Some v \<Rightarrow> truthy v)"

text \<open>
  Reading a property \<^verbatim>\<open>v.k\<close> of a value other than \<^verbatim>\<open>null\<close>, for the keys this program
  reads (\<^verbatim>\<open>delta\<close>, \<^verbatim>\<open>done\<close>, \<^verbatim>\<open>text\<close>, \<^verbatim>\<open>query\<close>, \<^verbatim>\<open>languageId\<close>, \<^verbatim>\<open>message\<close>): none of
  them is defined on a prototype, so an array, a string, a number or a boolean gives
  \<^verbatim>\<open>undefined\<close>. An object keeps the last of several members with one key, as
  \<^verbatim>\<open>JSON.parse\<close> does.
\<close>

fun get_prop :: "json \<Rightarrow> string \<Rightarrow> json option" where
  "get_prop (JObj kvs) k = map_of (rev kvs) k"
| "get_prop v k = None"

text \<open>
  \<^verbatim>\<open>String(v)\<close>: \<open>None\<close> where the conversion throws a \<^verbatim>\<open>TypeError\<close> (an object with a
  member \<^verbatim>\<open>toString\<close> of its own, which is not callable). An array joins its elements
  with commas, \<^verbatim>\<open>null\<close> elements printing as nothing.
\<close>

fun join_comma :: "string list \<Rightarrow> string" where
  "join_comma [] = []"
| "join_comma [s] = s"
| "join_comma (s # t # ss) = s @ '','' @ join_comma (t # ss)"

fun sequence_opt :: "'a option list \<Rightarrow> 'a list option" where
  "sequence_opt [] = Some []"
| "sequence_opt (None # xs) = None"
| "sequence_opt (Some x # xs) = map_option ((#) x) (sequence_opt xs)"

fun String_js :: "json \<Rightarrow> string option" where
  "String_js JNull = Some ''null''"
| "String_js (JBool b) = Some (if b then ''true'' else ''false'')"
| "String_js (JNum n) = Some n"
| "String_js (JStr s) = Some s"
| "String_js (JArr xs) =
     map_option join_comma
       (sequence_opt (map (\<lambda>x. if x = JNull then Some [] else String_js x) xs))"
| "String_js (JObj kvs) =
     (if ''toString'' \<in> set (map fst kvs) then None else Some ''[object Object]'')"

text \<open>
  White space as \<^verbatim>\<open>String.prototype.trim\<close> sees it, among the code units below 256:
  tab, line feed, vertical tab, form feed, carriage return, space, no-break space.
\<close>

definition is_space :: "char \<Rightarrow> bool" where
  "is_space c = (c \<in> set [CHR 0x09, CHR 0x0A, CHR 0x0B, CHR 0x0C, CHR 0x0D, CHR 0x20, CHR 0xA0])"

definition trim :: "string \<Rightarrow> string" where
  "trim s = rev (dropWhile is_space (rev (dropWhile is_space s)))"

text \<open>\<^verbatim>\<open>s.split("\n")\<close>: the pieces between line feeds; never empty, \<open>[[]]\<close> for the
  empty string.\<close>

fun split_nl :: "string \<Rightarrow> string list" where
  "split_nl [] = [[]]"
| "split_nl (c # cs) =
     (if c = CHR 0x0A then [] # split_nl cs
      else (case split_nl cs of [] \<Rightarrow> [[c]] | l # ls \<Rightarrow> (c # l) # ls))"



subsection \<open>A reading of \<^verbatim>\<open>JSON.parse\<close>\<close>

text \<open>
  The relay below takes the parser as a parameter, so what is proved of it holds for
  every parser. \<open>JSON_parse\<close> is the one used to run the relay on concrete streams: a
  recursive descent parser of the JSON grammar, \<open>None\<close> where \<^verbatim>\<open>JSON.parse\<close> throws a
  \<^verbatim>\<open>SyntaxError\<close>. Two things are narrower than in JavaScript. An escape
  \<^verbatim>\<open>\uXXXX\<close> is read only up to \<^verbatim>\<open>\u00FF\<close>, the code units a \<open>char\<close> can hold, and gives
  \<open>None\<close> above. A number that is an integer literal is named as \<^verbatim>\<open>String\<close> prints it
  (for integers below \<open>2^53\<close>), one whose digits are all zero is \<open>JNum ''0''\<close>, and any
  other literal is named by its own text (\<^verbatim>\<open>1.50\<close> stays \<open>''1.50''\<close>, where JavaScript
  prints \<^verbatim>\<open>1.5\<close>, and \<^verbatim>\<open>1e-400\<close> stays \<open>''1e-400''\<close>, where JavaScript rounds to zero).
  No property below is evaluated on such a record.
\<close>

definition json_space :: "char \<Rightarrow> bool" where
  "json_space c = (c \<in> set [CHR 0x20, CHR 0x09, CHR 0x0A, CHR 0x0D])"

definition skip_ws :: "string \<Rightarrow> string" where
  "skip_ws s = dropWhile json_space s"

definition is_digit :: "char \<Rightarrow> bool" where
  "is_digit c = (c \<in> set ''0123456789'')"

definition hex_digit :: "char \<Rightarrow> nat option" where
  "hex_digit c = map_of (zip ''0123456789abcdefABCDEF'' ([0..<16] @ [10..<16])) c"

definition simple_escape :: "char \<Rightarrow> char option" where
  "simple_escape e = map_of
     [(CHR 0x22, CHR 0x22), (CHR 0x5C, CHR 0x5C), (CHR ''/'', CHR ''/''),
      (CHR ''b'', CHR 0x08), (CHR ''f'', CHR 0x0C), (CHR ''n'', CHR 0x0A),
      (CHR ''r'', CHR 0x0D), (CHR ''t'', CHR 0x09)] e"

definition hex4 :: "char \<Rightarrow> char \<Rightarrow> char \<Rightarrow> char \<Rightarrow> char option" where
  "hex4 a b c d =
     (case (hex_digit a, hex_digit b, hex_digit c, hex_digit d) of
        (Some w, Some x, Some y, Some z) \<Rightarrow>
          (if w = 0 \<and> x = 0 then Some (char_of (16 * y + z)) else None)
      | _ \<Rightarrow> None)"

text \<open>The characters of a string literal, after its opening quote, and what follows
  the closing quote.\<close>

fun parse_chars :: "string \<Rightarrow> (string \<times> string) option" where
  "parse_chars [] = None"
| "parse_chars (c # cs) =
     (if c = CHR 0x22 then Some ([], cs)
      else if c = CHR 0x5C then
        (case cs of
           [] \<Rightarrow> None
         | e # r \<Rightarrow>
             if e = CHR ''u'' then
               (case r of
                  a # b # c' # d # r' \<Rightarrow>
                    (case hex4 a b c' d of
                       None \<Rightarrow> None
                     | Some ch \<Rightarrow> map_option (\<lambda>(t, rest). (ch # t, rest)) (parse_chars r'))
                | _ \<Rightarrow> None)
             else
               (case simple_escape e of
                  None \<Rightarrow> None
                | Some ch \<Rightarrow> map_option (\<lambda>(t, rest). (ch # t, rest)) (parse_chars r)))
      else if (of_char c :: nat) < 0x20 then None
      else map_option (\<lambda>(t, rest). (c # t, rest)) (parse_chars cs))"

definition digits_opt :: "string \<Rightarrow> (string \<times> string) option" where
  "digits_opt s =
     (if takeWhile is_digit s = [] then None
      else Some (takeWhile is_digit s, dropWhile is_digit s))"

text \<open>The fraction of a number, with its point, if there is one.\<close>

definition fraction_opt :: "string \<Rightarrow> (string \<times> string) option" where
  "fraction_opt s =
     (case s of
        [] \<Rightarrow> Some ([], s)
      | c # r \<Rightarrow>
          if c = CHR ''.'' then map_option (\<lambda>(fs, r'). (c # fs, r')) (digits_opt r)
          else Some ([], s))"

text \<open>The exponent of a number, with its letter and sign, if there is one.\<close>

definition exponent_opt :: "string \<Rightarrow> (string \<times> string) option" where
  "exponent_opt s =
     (case s of
        [] \<Rightarrow> Some ([], s)
      | c # r \<Rightarrow>
          if c = CHR ''e'' \<or> c = CHR ''E'' then
            (case r of
               [] \<Rightarrow> None
             | g # r' \<Rightarrow>
                 if g = CHR ''+'' \<or> g = CHR ''-'' then
                   map_option (\<lambda>(es, r''). (c # g # es, r'')) (digits_opt r')
                 else map_option (\<lambda>(es, r''). (c # es, r'')) (digits_opt r))
          else Some ([], s))"

definition parse_number :: "string \<Rightarrow> (json \<times> string) option" where
  "parse_number s =
     (let neg = (take 1 s = ''-'');
          s1 = (if neg then drop 1 s else s)
      in case digits_opt s1 of
           None \<Rightarrow> None
         | Some (ds, r1) \<Rightarrow>
             if length ds > 1 \<and> take 1 ds = ''0'' then None
             else
               (case fraction_opt r1 of
                  None \<Rightarrow> None
                | Some (frac, r2) \<Rightarrow>
                    (case exponent_opt r2 of
                       None \<Rightarrow> None
                     | Some (ex, r3) \<Rightarrow>
                         Some (JNum (if list_all (\<lambda>d. d = CHR ''0'') (ds @ drop 1 frac)
                                     then ''0''
                                     else (if neg then ''-'' else []) @ ds @ frac @ ex),
                               r3))))"

definition literal :: "string \<Rightarrow> json \<Rightarrow> string \<Rightarrow> (json \<times> string) option" where
  "literal w v s = (if take (length w) s = w then Some (v, drop (length w) s) else None)"

text \<open>
  A value, the elements of an array after its bracket, the members of an object after
  its brace. The first argument bounds the depth of the calls; a value nested that deep
  is at least that long, so the length of the text is enough.
\<close>

fun parse_value :: "nat \<Rightarrow> string \<Rightarrow> (json \<times> string) option"
and parse_elements :: "nat \<Rightarrow> string \<Rightarrow> (json list \<times> string) option"
and parse_members :: "nat \<Rightarrow> string \<Rightarrow> ((string \<times> json) list \<times> string) option"
where
  "parse_value 0 s = None"
| "parse_value (Suc n) s =
     (case skip_ws s of
        [] \<Rightarrow> None
      | c # cs \<Rightarrow>
          if c = CHR ''{'' then
            (case skip_ws cs of
               [] \<Rightarrow> None
             | d # ds \<Rightarrow>
                 if d = CHR ''}'' then Some (JObj [], ds)
                 else map_option (\<lambda>(kvs, r). (JObj kvs, r)) (parse_members n (d # ds)))
          else if c = CHR ''['' then
            (case skip_ws cs of
               [] \<Rightarrow> None
             | d # ds \<Rightarrow>
                 if d = CHR '']'' then Some (JArr [], ds)
                 else map_option (\<lambda>(vs, r). (JArr vs, r)) (parse_elements n (d # ds)))
          else if c = CHR 0x22 then map_option (\<lambda>(t, r). (JStr t, r)) (parse_chars cs)
          else if c = CHR ''t'' then literal ''true'' (JBool True) (c # cs)
          else if c = CHR ''f'' then literal ''false'' (JBool False) (c # cs)
          else if c = CHR ''n'' then literal ''null'' JNull (c # cs)
          else parse_number (c # cs))"
| "parse_elements 0 s = None"
| "parse_elements (Suc n) s =
     (case parse_value n s of
        None \<Rightarrow> None
      | Some (v, r) \<Rightarrow>
          (case skip_ws r of
             [] \<Rightarrow> None
           | c # cs \<Rightarrow>
               if c = CHR '','' then
                 map_option (\<lambda>(vs, r'). (v # vs, r')) (parse_elements n cs)
               else if c = CHR '']'' then Some ([v], cs)
               else None))"
| "parse_members 0 s = None"
| "parse_members (Suc n) s =
     (case skip_ws s of
        [] \<Rightarrow> None
      | q # cs \<Rightarrow>
          if q \<noteq> CHR 0x22 then None
          else
            (case parse_chars cs of
               None \<Rightarrow> None
             | Some (k, r) \<Rightarrow>
                 (case skip_ws r of
                    [] \<Rightarrow> None
                  | c # r1 \<Rightarrow>
                      if c \<noteq> CHR '':'' then None
                      else
                        (case parse_value n r1 of
                           None \<Rightarrow> None
                         | Some (v, r2) \<Rightarrow>
                             (case skip_ws r2 of
                                [] \<Rightarrow> None
                              | d # r3 \<Rightarrow>
                                  if d = CHR '','' then
                                    map_option (\<lambda>(kvs, r'). ((k, v) # kvs, r'))
                                      (parse_members n r3)
                                  else if d = CHR ''}'' then Some ([(k, v)], r3)
                                  else None)))))"

definition JSON_parse :: "string \<Rightarrow> json option" where
  "JSON_parse s =
     (case parse_value (Suc (length s)) s of
        None \<Rightarrow> None
      | Some (v, r) \<Rightarrow> if skip_ws r = [] then Some v else None)"


section \<open>The backend: request validation\<close>










section \<open>The stream relay of the extension host\<close>

text \<open>
  \<^verbatim>\<open>streamChatToWebview\<close> posts two kinds of message to the panel, each with the
  correlation id of the user's turn (\<^verbatim>\<open>msg.id || null\<close>, here \<open>None\<close> for \<^verbatim>\<open>null\<close>):
  \<^verbatim>\<open>{type: "aiDelta", id, delta}\<close> and \<^verbatim>\<open>{type: "aiDone", id, text}\<close>.
\<close>

datatype msg =
    AiDelta "string option" json
  | AiDone "string option" json

text \<open>
  \<^verbatim>\<open>currentPanel?.webview.postMessage(m)\<close>: the message is posted when there is a panel,
  and nothing happens when there is none. \<open>panel\<close> says whether \<^verbatim>\<open>currentPanel\<close> is set.
\<close>

definition post :: "bool \<Rightarrow> msg \<Rightarrow> msg list" where
  "post panel m = (if panel then [m] else [])"

text \<open>\<^verbatim>\<open>obj.text || null\<close>\<close>

definition or_null :: "json option \<Rightarrow> json" where
  "or_null x = (case x of None \<Rightarrow> JNull | Some v \<Rightarrow> if truthy v then v else JNull)"

text \<open>
  The body of the loop over the complete lines in the \<^verbatim>\<open>data\<close> handler. Whatever throws
  inside the \<^verbatim>\<open>try\<close> (\<^verbatim>\<open>JSON.parse\<close>, reading \<^verbatim>\<open>obj.delta\<close> when \<^verbatim>\<open>obj\<close> is \<^verbatim>\<open>null\<close>,
  \<^verbatim>\<open>String(obj)\<close>) throws before the message of its branch is posted, and the \<^verbatim>\<open>catch\<close>
  posts the line itself.
\<close>

definition data_line ::
  "(string \<Rightarrow> json option) \<Rightarrow> bool \<Rightarrow> string option \<Rightarrow> string \<Rightarrow> msg list"
where
  "data_line parse panel mid line =
     (if trim line = [] then []
      else
        (case parse line of
           None \<Rightarrow> post panel (AiDelta mid (JStr line))
         | Some JNull \<Rightarrow> post panel (AiDelta mid (JStr line))
         | Some obj \<Rightarrow>
             (case get_prop obj ''delta'' of
                Some d \<Rightarrow> post panel (AiDelta mid d)
              | None \<Rightarrow>
                  if truthy_opt (get_prop obj ''done'') then
                    post panel (AiDone mid (or_null (get_prop obj ''text'')))
                  else
                    (case String_js obj of
                       Some str \<Rightarrow> post panel (AiDelta mid (JStr str))
                     | None \<Rightarrow> post panel (AiDelta mid (JStr line))))))"

text \<open>
  The \<^verbatim>\<open>data\<close> handler: \<^verbatim>\<open>buf += chunk; parts = buf.split("\n"); buf = parts.pop() || ""\<close>,
  then the loop over what is left of \<^verbatim>\<open>parts\<close>. It returns the new buffer and the
  messages posted.
\<close>

definition on_data ::
  "(string \<Rightarrow> json option) \<Rightarrow> bool \<Rightarrow> string option \<Rightarrow> string \<Rightarrow> string
     \<Rightarrow> string \<times> msg list"
where
  "on_data parse panel mid chunk buf =
     (let parts = split_nl (buf @ chunk) in
      (if parts = [] then [] else last parts,
       concat (map (data_line parse panel mid) (butlast parts))))"

text \<open>
  The \<^verbatim>\<open>end\<close> handler, on the buffer that is left. Unlike the loop above it has no
  last \<^verbatim>\<open>else\<close>: a value that has no \<^verbatim>\<open>delta\<close> and no truthy \<^verbatim>\<open>done\<close> posts nothing.
\<close>

definition on_end ::
  "(string \<Rightarrow> json option) \<Rightarrow> bool \<Rightarrow> string option \<Rightarrow> string \<Rightarrow> msg list"
where
  "on_end parse panel mid buf =
     (if trim buf = [] then []
      else
        (case parse buf of
           None \<Rightarrow> post panel (AiDelta mid (JStr buf))
         | Some JNull \<Rightarrow> post panel (AiDelta mid (JStr buf))
         | Some obj \<Rightarrow>
             (case get_prop obj ''delta'' of
                Some d \<Rightarrow> post panel (AiDelta mid d)
              | None \<Rightarrow>
                  if truthy_opt (get_prop obj ''done'') then
                    post panel (AiDone mid (or_null (get_prop obj ''text'')))
                  else [])))"

text \<open>
  What the response and the request emit, in order: chunks of the body (decoded text,
  as \<^verbatim>\<open>setEncoding("utf8")\<close> delivers them), the end of the body, \<^verbatim>\<open>error\<close> on the
  request, with the text that \<^verbatim>\<open>err?.message || String(err)\<close> gives for the error, or
  the events of a response that is cut off before its end (\<^verbatim>\<open>aborted\<close>, \<^verbatim>\<open>error\<close> and
  \<^verbatim>\<open>close\<close> on the response), for which \<^verbatim>\<open>streamChatToWebview\<close> registers no listener.
  The promise of \<^verbatim>\<open>streamChatToWebview\<close> is settled by the first \<open>End\<close> or \<open>Failure\<close>;
  there is no timeout on this path, and \<open>None\<close> is a promise that stays pending.
\<close>

datatype stream_event = Data string | End | Failure string | Aborted

datatype outcome = Resolved | Rejected string

fun stream_run ::
  "(string \<Rightarrow> json option) \<Rightarrow> bool \<Rightarrow> string option \<Rightarrow> string \<Rightarrow> stream_event list
     \<Rightarrow> msg list \<times> outcome option"
where
  "stream_run parse panel mid buf [] = ([], None)"
| "stream_run parse panel mid buf (Data chunk # es) =
     (case on_data parse panel mid chunk buf of
        (buf', ms) \<Rightarrow>
          (case stream_run parse panel mid buf' es of (ms', r) \<Rightarrow> (ms @ ms', r)))"
| "stream_run parse panel mid buf (End # es) = (on_end parse panel mid buf, Some Resolved)"
| "stream_run parse panel mid buf (Failure e # es) = ([], Some (Rejected e))"
| "stream_run parse panel mid buf (Aborted # es) = stream_run parse panel mid buf es"

definition streamChatToWebview ::
  "(string \<Rightarrow> json option) \<Rightarrow> bool \<Rightarrow> string option \<Rightarrow> stream_event list
     \<Rightarrow> msg list \<times> outcome option"
where
  "streamChatToWebview parse panel mid events = stream_run parse panel mid [] events"

text \<open>The messages of a body that arrives in the given chunks and then ends.\<close>

definition relay ::
  "(string \<Rightarrow> json option) \<Rightarrow> bool \<Rightarrow> string option \<Rightarrow> string list \<Rightarrow> msg list"
where
  "relay parse panel mid chunks =
     fst (streamChatToWebview parse panel mid (map Data chunks @ [End]))"

text \<open>
  The \<^verbatim>\<open>userMessage\<close> branch of the panel's message handler in \<^verbatim>\<open>openOrRevealPanel\<close>:
  it awaits the stream, and when the promise rejects it posts an error fragment and a
  terminal message with \<^verbatim>\<open>text: null\<close>.
\<close>

definition userMessage ::
  "(string \<Rightarrow> json option) \<Rightarrow> bool \<Rightarrow> string option \<Rightarrow> stream_event list \<Rightarrow> msg list"
where
  "userMessage parse panel mid events =
     (case streamChatToWebview parse panel mid events of
        (ms, Some (Rejected e)) \<Rightarrow>
          ms @ post panel (AiDelta mid (JStr (backend_error e)))
             @ post panel (AiDone mid JNull)
      | (ms, _) \<Rightarrow> ms)"


section \<open>The panel: rendering Markdown\<close>

text \<open>
  The script of the panel is written inside a template literal of \<^verbatim>\<open>getPanelHtml\<close>, so
  the patterns it runs are \<^verbatim>\<open>/```(\w+)?\n([\s\S]*?)```/g\<close>, \<^verbatim>\<open>/`([^`\n]+)`/g\<close>,
  \<^verbatim>\<open>/\n{2,}/g\<close> and \<^verbatim>\<open>/\n/g\<close>. A global \<^verbatim>\<open>replace\<close> scans from the left, replaces the
  first match it finds and goes on behind it.
\<close>

text \<open>\<^verbatim>\<open>s.replace(/c/g, rep)\<close> for a single character \<open>c\<close>.\<close>

definition replace_char :: "char \<Rightarrow> string \<Rightarrow> string \<Rightarrow> string" where
  "replace_char c rep s = concat (map (\<lambda>x. if x = c then rep else [x]) s)"

definition escapeHtml :: "string \<Rightarrow> string" where
  "escapeHtml s =
     replace_char (CHR 0x22) ''&quot;''
       (replace_char CHR ''>'' ''&gt;''
          (replace_char CHR ''<'' ''&lt;''
             (replace_char CHR ''&'' ''&amp;'' s)))"

text \<open>\<^verbatim>\<open>\w\<close>\<close>

definition is_word :: "char \<Rightarrow> bool" where
  "is_word c =
     (c \<in> set ''abcdefghijklmnopqrstuvwxyzABCDEFGHIJKLMNOPQRSTUVWXYZ0123456789_'')"

definition fence :: string where
  "fence = ''```''"

text \<open>\<^verbatim>\<open>([\s\S]*?)```\<close>: the shortest text up to a closing fence, and what follows the
  fence.\<close>

fun split_at_fence :: "string \<Rightarrow> (string \<times> string) option" where
  "split_at_fence [] = None"
| "split_at_fence (c # cs) =
     (if take 3 (c # cs) = fence then Some ([], drop 3 (c # cs))
      else map_option (\<lambda>(b, a). (c # b, a)) (split_at_fence cs))"

text \<open>
  A match of the fence pattern at the start of the text: the language tag (empty when
  the group \<^verbatim>\<open>(\w+)?\<close> took nothing), the body, and the text behind the match. The tag is
  the longest run of word characters, since a line feed has to follow it.
\<close>

definition match_fence :: "string \<Rightarrow> (string \<times> string \<times> string) option" where
  "match_fence s =
     (if take 3 s = fence then
        (case dropWhile is_word (drop 3 s) of
           [] \<Rightarrow> None
         | c # r \<Rightarrow>
             if c = CHR 0x0A then
               map_option (\<lambda>(code, rest). (takeWhile is_word (drop 3 s), code, rest))
                 (split_at_fence r)
             else None)
      else None)"

text \<open>The pieces of markup between which the replacement function puts the tag and
  the code.\<close>

definition block_open :: string where
  \<open>block_open =
     ''<div class="code-block">'' @
     ''<div class="code-toolbar">'' @
     ''<span class="code-lang">''\<close>

definition block_toolbar :: string where
  \<open>block_toolbar =
     ''</span>'' @
     ''<div>'' @
     ''<button class="copy-btn" data-action="copy">Copy</button>'' @
     ''<button class="copy-btn" data-action="insert">Insert</button>'' @
     ''</div>'' @
     ''</div>'' @
     ''<pre><code data-code="''\<close>

definition block_attr_end :: string where
  \<open>block_attr_end = ''">''\<close>

definition block_close :: string where
  "block_close = ''</code></pre>'' @ ''</div>''"

definition code_block :: "string \<Rightarrow> string \<Rightarrow> string" where
  "code_block lang code =
     (let safeCode = trim code;
          dataCode = replace_char (CHR 0x22) ''&quot;'' safeCode
      in block_open @ (if lang = [] then ''code'' else lang) @ block_toolbar
         @ dataCode @ block_attr_end @ safeCode @ block_close)"

lemma split_at_fence_length:
  "split_at_fence s = Some (b, a) \<Longrightarrow> length a < length s"
  by (induction s arbitrary: b) (auto split: if_splits)

lemma match_fence_length:
  assumes "match_fence s = Some (l, c, r)"
  shows "length r < length s"
proof -
  from assms obtain r' where r': "dropWhile is_word (drop 3 s) = CHR 0x0A # r'"
    and sp: "split_at_fence r' = Some (c, r)"
    by (auto simp: match_fence_def split: if_splits list.splits)
  have "length (dropWhile is_word (drop 3 s)) \<le> length s"
    by (rule order_trans [OF length_dropWhile_le]) simp
  with r' have "length r' < length s" by simp
  with split_at_fence_length [OF sp] show ?thesis by simp
qed

function replace_fences :: "string \<Rightarrow> string" where
  "replace_fences [] = []"
| "replace_fences (c # cs) =
     (case match_fence (c # cs) of
        Some (lang, code, rest) \<Rightarrow> code_block lang code @ replace_fences rest
      | None \<Rightarrow> c # replace_fences cs)"
  by pat_completeness auto
termination
  by (relation "measure length") (auto dest: match_fence_length)

text \<open>\<^verbatim>\<open>[^`\n]\<close>\<close>

definition in_span :: "char \<Rightarrow> bool" where
  "in_span x = (x \<noteq> CHR 0x60 \<and> x \<noteq> CHR 0x0A)"

definition inline_open :: string where
  \<open>inline_open = ''<code class="inline">''\<close>

definition inline_close :: string where
  "inline_close = ''</code>''"

text \<open>
  The inline pattern matches at a backquote that is followed by a non-empty run of
  characters other than backquote and line feed, and then by a backquote.
\<close>

function replace_inline :: "string \<Rightarrow> string" where
  "replace_inline [] = []"
| "replace_inline (c # cs) =
     (if c = CHR 0x60 \<and> takeWhile in_span cs \<noteq> []
         \<and> take 1 (dropWhile in_span cs) = [CHR 0x60]
      then inline_open @ takeWhile in_span cs @ inline_close
             @ replace_inline (drop 1 (dropWhile in_span cs))
      else c # replace_inline cs)"
  by pat_completeness auto
termination
  by (relation "measure length")
     (auto simp: less_Suc_eq_le intro: order_trans [OF diff_le_self length_dropWhile_le])

text \<open>\<^verbatim>\<open>/\n{2,}/g\<close>: every run of two or more line feeds becomes one paragraph break.\<close>

function replace_paragraphs :: "string \<Rightarrow> string" where
  "replace_paragraphs [] = []"
| "replace_paragraphs (c # cs) =
     (if c = CHR 0x0A \<and> take 1 cs = [CHR 0x0A]
      then ''</p><p>'' @ replace_paragraphs (dropWhile (\<lambda>x. x = CHR 0x0A) cs)
      else c # replace_paragraphs cs)"
  by pat_completeness auto
termination
  by (relation "measure length") (auto intro: le_imp_less_Suc length_dropWhile_le)

text \<open>The body of \<^verbatim>\<open>renderMarkdown\<close> behind its first line, on the text of \<^verbatim>\<open>md\<close>.\<close>

definition render_text :: "string \<Rightarrow> string" where
  "render_text md =
     ''<p>'' @
     replace_char (CHR 0x0A) ''<br>''
       (replace_paragraphs (replace_inline (replace_fences (escapeHtml md))))
     @ ''</p>''"

text \<open>
  \<^verbatim>\<open>renderMarkdown(md)\<close>. The argument is whatever the message carried: a falsy value
  gives the empty string, any other value is rendered from \<^verbatim>\<open>String(md)\<close>, and \<open>None\<close>
  is the \<^verbatim>\<open>TypeError\<close> of that conversion.
\<close>

definition renderMarkdown :: "json \<Rightarrow> string option" where
  "renderMarkdown md =
     (if \<not> truthy md then Some [] else map_option render_text (String_js md))"


section \<open>The panel: messages from the extension host\<close>

text \<open>
  The chat is the list of its bubbles, each with the role of its class and either text
  (\<^verbatim>\<open>textContent\<close>) or markup (\<^verbatim>\<open>innerHTML\<close>). The \<^verbatim>\<open>pending\<close> map refers to a bubble by
  its position in the chat.
\<close>

datatype role = User | Ai

datatype content = Text string | Html string

record webview =
  chat :: "(role \<times> content) list"
  pending :: "nat js_map"
  counter :: nat

text \<open>
  Reading \<^verbatim>\<open>textContent\<close>. What a browser extracts from markup is not modelled: only
  bubbles in \<^verbatim>\<open>pending\<close> are read, and markup is put into a bubble in the step that
  takes it out of \<^verbatim>\<open>pending\<close>.
\<close>

fun textContent :: "content \<Rightarrow> string" where
  "textContent (Text t) = t"
| "textContent (Html h) = []"

text \<open>The horizontal ellipsis U+2026 of the placeholder, as the bytes of its UTF-8
  encoding.\<close>

definition ellipsis :: string where
  "ellipsis = [CHR 0xE2, CHR 0x80, CHR 0xA6]"

definition initial_webview :: webview where
  "initial_webview =
     \<lparr>chat = [(Ai, Text ''Welcome! Ask about your code, or paste a snippet and ask for analysis.'')],
      pending = [], counter = 0\<rparr>"

text \<open>\<^verbatim>\<open>addMessage(role, text)\<close> appends a bubble and returns it.\<close>

definition addMessage :: "role \<Rightarrow> string \<Rightarrow> webview \<Rightarrow> nat \<times> webview" where
  "addMessage r t w = (length (chat w), w\<lparr>chat := chat w @ [(r, Text t)]\<rparr>)"

text \<open>The decimal digits of a number, as \<^verbatim>\<open>'m' + counter\<close> appends them.\<close>

definition digit_char :: "nat \<Rightarrow> char" where
  "digit_char d = ''0123456789'' ! (d mod 10)"

function string_of_nat :: "nat \<Rightarrow> string" where
  "string_of_nat n =
     (if n div 10 = 0 then [] else string_of_nat (n div 10)) @ [digit_char n]"
  by pat_completeness auto
termination
  by (relation "measure id") auto

text \<open>
  \<^verbatim>\<open>handleSend\<close> on the text to send: the new state and the \<^verbatim>\<open>userMessage\<close> posted to
  the extension host (its id and its text), if any.
\<close>

definition handleSend :: "string \<Rightarrow> webview \<Rightarrow> webview \<times> (string \<times> string) option" where
  "handleSend val w =
     (if val = [] then (w, None)
      else
        let w1 = snd (addMessage User val w);
            n = counter w1 + 1;
            mid = ''m'' @ string_of_nat n;
            (placeholder, w2) = addMessage Ai ellipsis (w1\<lparr>counter := n\<rparr>)
        in (w2\<lparr>pending := map_set mid placeholder (pending w2)\<rparr>, Some (mid, val)))"

text \<open>\<^verbatim>\<open>id && pending.has(id)\<close>, with the bubble that \<^verbatim>\<open>pending.get(id)\<close> gives.\<close>

definition pending_bubble :: "webview \<Rightarrow> string option \<Rightarrow> (string \<times> nat) option" where
  "pending_bubble w mid =
     (case mid of
        None \<Rightarrow> None
      | Some i \<Rightarrow> if i = [] then None else map_option (\<lambda>b. (i, b)) (map_get (pending w) i))"

definition set_content :: "nat \<Rightarrow> content \<Rightarrow> webview \<Rightarrow> webview" where
  "set_content b c w =
     (if b < length (chat w) then w\<lparr>chat := (chat w)[b := (fst (chat w ! b), c)]\<rparr> else w)"

definition bubble_text :: "webview \<Rightarrow> nat \<Rightarrow> string" where
  "bubble_text w b = (if b < length (chat w) then textContent (snd (chat w ! b)) else [])"

text \<open>
  The listener for messages from the extension host. A conversion to text that throws
  ends the listener before it has changed anything.
\<close>

fun webview_receive :: "msg \<Rightarrow> webview \<Rightarrow> webview" where
  "webview_receive (AiDelta mid delta) w =
     (case String_js (if truthy delta then delta else JStr []) of
        None \<Rightarrow> w
      | Some d \<Rightarrow>
          (case pending_bubble w mid of
             Some (i, b) \<Rightarrow> set_content b (Text (bubble_text w b @ d)) w
           | None \<Rightarrow> snd (addMessage Ai d w)))"
| "webview_receive (AiDone mid finalText) w =
     (case pending_bubble w mid of
        Some (i, b) \<Rightarrow>
          (let w1 = (case finalText of
                       JStr t \<Rightarrow>
                         (case renderMarkdown (JStr t) of
                            Some h \<Rightarrow> set_content b (Html h) w
                          | None \<Rightarrow> w)
                     | _ \<Rightarrow> w)
           in w1\<lparr>pending := map_delete i (pending w1)\<rparr>)
      | None \<Rightarrow>
          if truthy finalText then
            (case addMessage Ai [] w of
               (b, w1) \<Rightarrow>
                 (case renderMarkdown finalText of
                    Some h \<Rightarrow> set_content b (Html h) w1
                  | None \<Rightarrow> w1))
          else w)"

text \<open>The panel after a list of messages, received in order.\<close>

definition webview_run :: "msg list \<Rightarrow> webview \<Rightarrow> webview" where
  "webview_run ms w = fold webview_receive ms w"


section \<open>Notions used in the properties\<close>

text \<open>Terminal messages.\<close>

fun is_done :: "msg \<Rightarrow> bool" where
  "is_done (AiDone mid t) = True"
| "is_done (AiDelta mid d) = False"

text \<open>
  What the output of \<^verbatim>\<open>renderMarkdown\<close> is made of: the four entities that
  \<^verbatim>\<open>escapeHtml\<close> writes, the pieces of markup that the substitutions insert, and single
  characters other than \<^verbatim>\<open><\<close>, \<^verbatim>\<open>>\<close>, \<^verbatim>\<open>"\<close> and \<^verbatim>\<open>&\<close>. \<open>built_from ts s\<close> says that \<open>s\<close> is a
  concatenation of such characters and of strings from the list \<open>ts\<close>. In escaped text
  the strings are the entities; in safe markup they are the entities and the pieces of
  markup, so every \<^verbatim>\<open><\<close>, \<^verbatim>\<open>>\<close> and \<^verbatim>\<open>"\<close> of it belongs to a piece the renderer wrote and
  every \<^verbatim>\<open>&\<close> starts an entity.
\<close>

definition entities :: "string list" where
  \<open>entities = [''&amp;'', ''&lt;'', ''&gt;'', ''&quot;'']\<close>

definition markup_pieces :: "string list" where
  "markup_pieces =
     [block_open, block_toolbar, block_attr_end, block_close, inline_open, inline_close,
      ''</p><p>'', ''<br>'', ''<p>'', ''</p>'']"

definition plain :: "char \<Rightarrow> bool" where
  "plain c = (c \<notin> set [CHR ''<'', CHR ''>'', CHR 0x22, CHR ''&''])"

inductive built_from :: "string list \<Rightarrow> string \<Rightarrow> bool" for ts where
  empty: "built_from ts []"
| char: "plain c \<Longrightarrow> built_from ts s \<Longrightarrow> built_from ts (c # s)"
| piece: "t \<in> set ts \<Longrightarrow> built_from ts s \<Longrightarrow> built_from ts (t @ s)"

definition escaped_text :: "string \<Rightarrow> bool" where
  "escaped_text s = built_from entities s"

definition safe_markup :: "string \<Rightarrow> bool" where
  "safe_markup s = built_from (entities @ markup_pieces) s"

definition escape_char :: "char \<Rightarrow> string" where
  \<open>escape_char c =
     (if c = CHR ''&'' then ''&amp;''
      else if c = CHR ''<'' then ''&lt;''
      else if c = CHR ''>'' then ''&gt;''
      else if c = CHR 0x22 then ''&quot;''
      else [c])\<close>

text \<open>
  To say where a character of the output comes from, the renderer is read a second
  time on marked characters: a character with the mark \<open>True\<close> comes from the input,
  one with the mark \<open>False\<close> was written by the renderer. The functions below are those
  of the renderer; they look at the character only and carry the mark along. The
  entity that \<^verbatim>\<open>escapeHtml\<close> writes for a character has the mark of that character; the
  markup that a substitution inserts is marked as written. Forgetting the marks gives
  the renderer's output (lemma \<open>chars_render_text\<close> below).
\<close>

type_synonym tagged = "(char \<times> bool) list"

definition from_input :: "string \<Rightarrow> tagged" where
  "from_input s = map (\<lambda>c. (c, True)) s"

definition written :: "string \<Rightarrow> tagged" where
  "written s = map (\<lambda>c. (c, False)) s"

definition t_replace_entity :: "char \<Rightarrow> string \<Rightarrow> tagged \<Rightarrow> tagged" where
  "t_replace_entity c rep s =
     concat (map (\<lambda>x. if fst x = c then map (\<lambda>r. (r, snd x)) rep else [x]) s)"

definition t_replace_markup :: "char \<Rightarrow> string \<Rightarrow> tagged \<Rightarrow> tagged" where
  "t_replace_markup c rep s = concat (map (\<lambda>x. if fst x = c then written rep else [x]) s)"

definition t_escapeHtml :: "tagged \<Rightarrow> tagged" where
  "t_escapeHtml s =
     t_replace_entity (CHR 0x22) ''&quot;''
       (t_replace_entity CHR ''>'' ''&gt;''
          (t_replace_entity CHR ''<'' ''&lt;''
             (t_replace_entity CHR ''&'' ''&amp;'' s)))"

fun t_split_at_fence :: "tagged \<Rightarrow> (tagged \<times> tagged) option" where
  "t_split_at_fence [] = None"
| "t_split_at_fence (c # cs) =
     (if map fst (take 3 (c # cs)) = fence then Some ([], drop 3 (c # cs))
      else map_option (\<lambda>(b, a). (c # b, a)) (t_split_at_fence cs))"

definition t_match_fence :: "tagged \<Rightarrow> (tagged \<times> tagged \<times> tagged) option" where
  "t_match_fence s =
     (if map fst (take 3 s) = fence then
        (case dropWhile (\<lambda>x. is_word (fst x)) (drop 3 s) of
           [] \<Rightarrow> None
         | c # r \<Rightarrow>
             if fst c = CHR 0x0A then
               map_option
                 (\<lambda>(code, rest). (takeWhile (\<lambda>x. is_word (fst x)) (drop 3 s), code, rest))
                 (t_split_at_fence r)
             else None)
      else None)"

definition t_trim :: "tagged \<Rightarrow> tagged" where
  "t_trim s =
     rev (dropWhile (\<lambda>x. is_space (fst x)) (rev (dropWhile (\<lambda>x. is_space (fst x)) s)))"

definition t_code_block :: "tagged \<Rightarrow> tagged \<Rightarrow> tagged" where
  "t_code_block lang code =
     (let safeCode = t_trim code;
          dataCode = t_replace_entity (CHR 0x22) ''&quot;'' safeCode
      in written block_open @ (if lang = [] then written ''code'' else lang)
         @ written block_toolbar @ dataCode @ written block_attr_end @ safeCode
         @ written block_close)"

lemma t_split_at_fence_length:
  "t_split_at_fence s = Some (b, a) \<Longrightarrow> length a < length s"
  by (induction s arbitrary: b) (auto split: if_splits)

lemma t_match_fence_length:
  assumes "t_match_fence s = Some (l, c, r)"
  shows "length r < length s"
proof -
  from assms obtain x r' where r': "dropWhile (\<lambda>x. is_word (fst x)) (drop 3 s) = x # r'"
    and sp: "t_split_at_fence r' = Some (c, r)"
    by (auto simp: t_match_fence_def split: if_splits list.splits)
  have "length (dropWhile (\<lambda>x. is_word (fst x)) (drop 3 s)) \<le> length s"
    by (rule order_trans [OF length_dropWhile_le]) simp
  with r' have "length r' < length s" by simp
  with t_split_at_fence_length [OF sp] show ?thesis by simp
qed

function t_replace_fences :: "tagged \<Rightarrow> tagged" where
  "t_replace_fences [] = []"
| "t_replace_fences (c # cs) =
     (case t_match_fence (c # cs) of
        Some (lang, code, rest) \<Rightarrow> t_code_block lang code @ t_replace_fences rest
      | None \<Rightarrow> c # t_replace_fences cs)"
  by pat_completeness auto
termination
  by (relation "measure length") (auto dest: t_match_fence_length)

function t_replace_inline :: "tagged \<Rightarrow> tagged" where
  "t_replace_inline [] = []"
| "t_replace_inline (c # cs) =
     (if fst c = CHR 0x60 \<and> takeWhile (\<lambda>x. in_span (fst x)) cs \<noteq> []
         \<and> map fst (take 1 (dropWhile (\<lambda>x. in_span (fst x)) cs)) = [CHR 0x60]
      then written inline_open @ takeWhile (\<lambda>x. in_span (fst x)) cs @ written inline_close
             @ t_replace_inline (drop 1 (dropWhile (\<lambda>x. in_span (fst x)) cs))
      else c # t_replace_inline cs)"
  by pat_completeness auto
termination
  by (relation "measure length")
     (auto simp: less_Suc_eq_le intro: order_trans [OF diff_le_self length_dropWhile_le])

function t_replace_paragraphs :: "tagged \<Rightarrow> tagged" where
  "t_replace_paragraphs [] = []"
| "t_replace_paragraphs (c # cs) =
     (if fst c = CHR 0x0A \<and> map fst (take 1 cs) = [CHR 0x0A]
      then written ''</p><p>'' @ t_replace_paragraphs (dropWhile (\<lambda>x. fst x = CHR 0x0A) cs)
      else c # t_replace_paragraphs cs)"
  by pat_completeness auto
termination
  by (relation "measure length") (auto intro: le_imp_less_Suc length_dropWhile_le)

definition t_render_text :: "string \<Rightarrow> tagged" where
  "t_render_text md =
     written ''<p>'' @
     t_replace_markup (CHR 0x0A) ''<br>''
       (t_replace_paragraphs (t_replace_inline (t_replace_fences (t_escapeHtml (from_input md)))))
     @ written ''</p>''"

text \<open>A marked character that is not a \<^verbatim>\<open><\<close>, \<^verbatim>\<open>>\<close> or \<^verbatim>\<open>"\<close> taken from the input.\<close>

definition unmarked :: "char \<times> bool \<Rightarrow> bool" where
  "unmarked x = (snd x \<longrightarrow> fst x \<notin> set [CHR ''<'', CHR ''>'', CHR 0x22])"

text \<open>Concrete inputs for the witnesses: a cache that is full, texts of a given
  length, a request body with one field, and a panel in the middle of a turn.\<close>

definition full_cache :: "string js_map" where
  "full_cache = map (\<lambda>n. (replicate (Suc n) CHR ''k'', ''md'')) [0..<1000]"



definition streaming_webview :: webview where
  "streaming_webview =
     webview_run [AiDelta (Some ''m1'') (JStr ''Hel'')] (fst (handleSend ''hi'' initial_webview))"

section \<open>Properties of the cache\<close>

lemma keys_map_set:
  "map fst (map_set k v m) = (if k \<in> set (map fst m) then map fst m else map fst m @ [k])"
  by (induction m) force+

lemma map_set_fresh: "k \<notin> set (map fst m) \<Longrightarrow> map_set k v m = m @ [(k, v)]"
  by (induction m) auto

lemma length_map_set:
  "length (map_set k v m) = (if k \<in> set (map fst m) then length m else Suc (length m))"
  using arg_cong [OF keys_map_set [of k v m], of length] by (simp split: if_splits)

lemma distinct_map_set: "distinct (map fst m) \<Longrightarrow> distinct (map fst (map_set k v m))"
  by (simp add: keys_map_set)

lemma map_delete_hd:
  "distinct (map fst (e # m)) \<Longrightarrow> map_delete (fst e) (e # m) = m"
proof -
  assume d: "distinct (map fst (e # m))"
  then have "fst e \<notin> fst ` set m" by simp
  then have "\<forall>x \<in> set m. fst x \<noteq> fst e" by (metis imageI)
  then have "filter (\<lambda>x. fst x \<noteq> fst e) m = m" by (simp add: filter_id_conv)
  then show ?thesis by (simp add: map_delete_def)
qed

lemma cache_put_cases:
  assumes "distinct (map fst m)"
  shows "cache_put cap k v m =
           (if length (map_set k v m) > cap then tl (map_set k v m) else map_set k v m)"
proof (cases "map_set k v m")
  case Nil
  then show ?thesis by (simp add: cache_put_def first_key_def)
next
  case (Cons e m')
  from assms have "distinct (map fst (map_set k v m))" by (rule distinct_map_set)
  with Cons have "map_delete (fst e) (e # m') = m'" by (simp only: map_delete_hd)
  with Cons show ?thesis by (simp add: cache_put_def first_key_def)
qed

lemma distinct_cache_put:
  assumes "distinct (map fst m)"
  shows "distinct (map fst (cache_put cap k v m))"
proof -
  have "distinct (map fst (map_set k v m))" using assms by (rule distinct_map_set)
  then have "distinct (map fst (tl (map_set k v m)))" by (simp add: map_tl distinct_tl)
  with \<open>distinct (map fst (map_set k v m))\<close> show ?thesis
    by (simp add: cache_put_cases [OF assms])
qed

lemma length_cache_put:
  assumes "distinct (map fst m)" "length m \<le> cap"
  shows "length (cache_put cap k v m) \<le> cap"
  using assms by (auto simp: cache_put_cases length_map_set)

lemma cache_put_at_capacity:
  assumes "distinct (map fst m)" "length m \<le> cap"
  shows "cache_put cap k v m =
           (if length m = cap \<and> \<not> map_has m k then tl (m @ [(k, v)]) else map_set k v m)"
  using assms
  by (auto simp: cache_put_cases length_map_set map_has_def map_set_fresh)

lemma cache_puts_fresh:
  assumes "distinct (map fst (m @ kvs))" "length m \<le> cap"
  shows "cache_puts cap kvs m = drop (length m + length kvs - cap) (m @ kvs)"
  using assms
proof (induction kvs arbitrary: m)
  case Nil
  then show ?case by simp
next
  case (Cons e kvs)
  obtain k v where e: "e = (k, v)" by (cases e)
  from Cons.prems have dm: "distinct (map fst m)" and fresh: "k \<notin> set (map fst m)"
    by (auto simp: e)
  let ?m' = "cache_put cap k v m"
  show ?case
  proof (cases "length m = cap")
    case True
    have m': "?m' = tl (m @ [(k, v)])"
      using dm fresh True by (simp add: cache_put_at_capacity map_has_def)
    have len: "length ?m' = cap" using True by (simp add: m')
    have sub: "set (map fst ?m') \<subseteq> insert k (set (map fst m))"
      unfolding m' by (cases m) auto
    have dk: "distinct (map fst ?m')"
      using dm by (rule distinct_cache_put)
    from Cons.prems(1) have rest: "distinct (map fst kvs)" "k \<notin> set (map fst kvs)"
      "set (map fst m) \<inter> set (map fst kvs) = {}"
      by (auto simp: e)
    have d': "distinct (map fst (?m' @ kvs))"
      unfolding map_append distinct_append using dk rest sub by blast
    have ih: "cache_puts cap kvs ?m' = drop (length ?m' + length kvs - cap) (?m' @ kvs)"
      using d' len by (intro Cons.IH) simp_all
    have n: "length ?m' + length kvs - cap = length kvs"
      using len by simp
    have t: "?m' @ kvs = drop 1 (m @ (k, v) # kvs)"
      unfolding m' by (cases m) simp_all
    have n': "length m + length (e # kvs) - cap = length kvs + 1"
      using True by simp
    have "cache_puts cap (e # kvs) m = cache_puts cap kvs ?m'"
      by (simp add: e)
    also have "\<dots> = drop (length kvs) (drop 1 (m @ (k, v) # kvs))"
      unfolding ih n t ..
    also have "\<dots> = drop (length m + length (e # kvs) - cap) (m @ e # kvs)"
      by (simp only: drop_drop e [symmetric] n')
    finally show ?thesis .
  next
    case False
    with Cons.prems(2) have lt: "length m < cap" by simp
    have m': "?m' = m @ [(k, v)]"
      using dm fresh lt Cons.prems(2) by (simp add: cache_put_at_capacity map_set_fresh)
    have "cache_puts cap kvs ?m' = drop (length ?m' + length kvs - cap) (?m' @ kvs)"
      using Cons.prems(1) lt by (intro Cons.IH) (simp_all add: m' e)
    then show ?thesis by (simp add: e m')
  qed
qed

lemma cache_puts_same_key:
  "cache_puts (Suc cap) (replicate n (k, v)) [(k, v)] = [(k, v)]"
  by (induction n) (simp_all add: cache_put_def)


text \<open>Every cache that a run of stores builds from the empty one is a \<^verbatim>\<open>Map\<close> within
  the bound.\<close>

lemma cache_puts_wf:
  assumes "distinct (map fst m)" and "length m \<le> cap"
  shows "distinct (map fst (cache_puts cap kvs m)) \<and> length (cache_puts cap kvs m) \<le> cap"
  using assms
proof (induction kvs arbitrary: m)
  case Nil
  then show ?case by simp
next
  case (Cons e kvs)
  obtain k v where e: "e = (k, v)" by (cases e)
  have "distinct (map fst (cache_put cap k v m))" "length (cache_put cap k v m) \<le> cap"
    using Cons.prems by (simp_all add: distinct_cache_put length_cache_put)
  then show ?case using Cons.IH [of "cache_put cap k v m"] by (simp add: e)
qed

text \<open>
  The first and third scenario of the specification: a second request for a term is
  answered from the cache, whatever the backend would say, and a request that the
  backend rejects leaves the cache as it was.
\<close>

lemma handleExplain_miss_then_hit:
  assumes "handleExplain True (Inr (Some \<lparr>ok = True, summary = s, detail = Some (c # cs), error = None\<rparr>))
             ''closure'' ''javascript'' [] = (cache', shown')"
  shows "shown' = ShowResult ''closure'' ''javascript'' (c # cs)
       \<and> handleExplain True reply ''closure'' ''javascript'' cache'
           = (cache', ShowResult ''closure'' ''javascript'' (c # cs))"
  using assms
  by (auto simp: handleExplain_def map_get_def cache_put_def MAX_CACHE_def first_key_def)

lemma handleExplain_backend_error:
  "map_get cache (cacheKey t l) = None \<Longrightarrow>
   handleExplain True (Inl e) t l cache = (cache, ShowError (backend_error e))"
  by (simp add: handleExplain_def)

subsection \<open>C2: the bound of 1000 entries\<close>

text \<open>
  C2. A store into a cache of at most \<open>MAX_CACHE = 1000\<close> entries leaves at most 1000
  entries. Between the \<^verbatim>\<open>set\<close> and the eviction the map holds at most 1001. When the
  cache is full and the key is new, the store drops exactly the first entry of the map,
  the key inserted longest ago, and appends the new one; in every other case nothing is
  evicted. \<open>distinct (map fst m)\<close> says that \<open>m\<close> is a \<^verbatim>\<open>Map\<close>: no key twice.
\<close>

theorem cache_put_bounded:
  assumes "distinct (map fst m)" and "length m \<le> MAX_CACHE"
  shows "length (cache_put MAX_CACHE k v m) \<le> MAX_CACHE
       \<and> length (map_set k v m) \<le> MAX_CACHE + 1
       \<and> cache_put MAX_CACHE k v m =
           (if length m = MAX_CACHE \<and> \<not> map_has m k then tl m @ [(k, v)]
            else map_set k v m)"
proof (intro conjI)
  show "length (cache_put MAX_CACHE k v m) \<le> MAX_CACHE"
    using assms by (rule length_cache_put)
  show "length (map_set k v m) \<le> MAX_CACHE + 1"
    using assms(2) by (simp add: length_map_set)
  have "m \<noteq> []" if "length m = MAX_CACHE"
    using that by (auto simp: MAX_CACHE_def)
  then show "cache_put MAX_CACHE k v m =
      (if length m = MAX_CACHE \<and> \<not> map_has m k then tl m @ [(k, v)] else map_set k v m)"
    using assms by (simp add: cache_put_at_capacity)
qed

text \<open>
  The witness is a full cache: the 1000 keys \<open>k\<close>, \<open>kk\<close>, \<open>kkk\<close>, ... stored in this
  order. Storing a new key drops the oldest of them and keeps 1000 entries.
\<close>

lemma full_cache_wf:
  "distinct (map fst full_cache)" "length full_cache = MAX_CACHE" "\<not> map_has full_cache ''new''"
proof -
  have "inj_on (\<lambda>n. replicate (Suc n) CHR ''k'') A" for A
    by (rule inj_onI) (metis length_replicate nat.inject)
  then show "distinct (map fst full_cache)"
    by (simp add: full_cache_def comp_def distinct_map)
  show "length full_cache = MAX_CACHE"
    by (simp add: full_cache_def MAX_CACHE_def)
  show "\<not> map_has full_cache ''new''"
    by (auto simp: map_has_def full_cache_def)
qed

theorem cache_put_bounded_witness:
  "distinct (map fst full_cache) \<and> length full_cache \<le> MAX_CACHE
   \<and> length (cache_put MAX_CACHE ''new'' ''md'' full_cache) \<le> MAX_CACHE
   \<and> length (map_set ''new'' ''md'' full_cache) \<le> MAX_CACHE + 1
   \<and> cache_put MAX_CACHE ''new'' ''md'' full_cache = tl full_cache @ [(''new'', ''md'')]"
  using cache_put_bounded [of full_cache "''new''" "''md''"] full_cache_wf
  by (simp add: MAX_CACHE_def)


subsection \<open>C3: which entries survive a run of stores\<close>

text \<open>
  C3, as the specification states it, also for runs that repeat a key: after more than
  \<open>C\<close> stores the cache would hold exactly \<open>C\<close> entries. It does not: 1001 stores of one
  key leave a single entry in the cache of capacity 1000, because \<^verbatim>\<open>Map.set\<close>
  overwrites a key that is present.
\<close>

theorem cache_repeated_key_counterexample:
  "MAX_CACHE < length (replicate 1001 (''closure::javascript'', ''md''))
   \<and> cache_puts MAX_CACHE (replicate 1001 (''closure::javascript'', ''md'')) []
       = [(''closure::javascript'', ''md'')]
   \<and> length (cache_puts MAX_CACHE (replicate 1001 (''closure::javascript'', ''md'')) [])
       \<noteq> MAX_CACHE"
proof -
  let ?e = "(''closure::javascript'', ''md'')"
  have first: "cache_put MAX_CACHE (fst ?e) (snd ?e) [] = [?e]"
    by (simp add: cache_put_def MAX_CACHE_def)
  have cap: "MAX_CACHE = Suc 999"
    by (simp add: MAX_CACHE_def)
  have "cache_puts MAX_CACHE (replicate (Suc 1000) ?e) [] =
        cache_puts MAX_CACHE (replicate 1000 ?e) [?e]"
    using first by (simp only: replicate_Suc cache_puts.simps fst_conv snd_conv)
  also have "\<dots> = [?e]"
    unfolding cap by (rule cache_puts_same_key)
  finally have "cache_puts MAX_CACHE (replicate 1001 ?e) [] = [?e]"
    by simp
  then show ?thesis by (simp add: MAX_CACHE_def)
qed

text \<open>
  C3, amended: for every capacity \<open>cap\<close> and every run of at least \<open>cap\<close> stores of
  pairwise different keys into the empty cache, the cache afterwards holds exactly
  \<open>cap\<close> entries, and they are the last \<open>cap\<close> stores of the run, in their order.
\<close>

theorem cache_keeps_most_recent:
  assumes "distinct (map fst kvs)" and "cap \<le> length kvs"
  shows "length (cache_puts cap kvs []) = cap
       \<and> cache_puts cap kvs [] = drop (length kvs - cap) kvs"
proof -
  have "cache_puts cap kvs [] = drop (length kvs - cap) kvs"
    using cache_puts_fresh [of "[]" kvs cap] assms(1) by simp
  then show ?thesis using assms(2) by simp
qed

theorem cache_keeps_most_recent_witness:
  "distinct (map fst [(''a'', ''1''), (''b'', ''2''), (''c'', ''3'')])
   \<and> (2::nat) \<le> length [(''a'', ''1''), (''b'', ''2''), (''c'', ''3'')]
   \<and> length (cache_puts 2 [(''a'', ''1''), (''b'', ''2''), (''c'', ''3'')] []) = 2
   \<and> cache_puts 2 [(''a'', ''1''), (''b'', ''2''), (''c'', ''3'')] []
       = [(''b'', ''2''), (''c'', ''3'')]"
  using cache_keeps_most_recent [of "[(''a'', ''1''), (''b'', ''2''), (''c'', ''3'')]" 2]
  by simp


section \<open>Properties of the backend's validation\<close>



subsection \<open>C8: the length bounds of \<^verbatim>\<open>query\<close> and \<^verbatim>\<open>message\<close>\<close>






section \<open>Properties of the stream relay\<close>

subsection \<open>Lines and chunks\<close>

lemma split_nl_nonempty: "split_nl s \<noteq> []"
  by (induction s) (auto split: list.splits)

lemma split_nl_no_newline: "CHR 0x0A \<notin> set s \<Longrightarrow> split_nl s = [s]"
  by (induction s) auto

lemma split_nl_pieces: "l \<in> set (split_nl s) \<Longrightarrow> CHR 0x0A \<notin> set l"
proof (induction s arbitrary: l)
  case Nil
  then show ?case by simp
next
  case (Cons c s)
  show ?case
  proof (cases "c = CHR 0x0A")
    case True
    with Cons show ?thesis by auto
  next
    case False
    obtain p ps where sp: "split_nl s = p # ps"
      using split_nl_nonempty [of s] by (cases "split_nl s") auto
    with Cons.prems False have "l = c # p \<or> l \<in> set ps" by auto
    then show ?thesis
    proof
      assume "l = c # p"
      moreover have "CHR 0x0A \<notin> set p" using Cons.IH [of p] sp by simp
      ultimately show ?thesis using False by auto
    next
      assume "l \<in> set ps"
      then show ?thesis using Cons.IH [of l] sp by simp
    qed
  qed
qed

lemma split_nl_append_newline:
  "split_nl (a @ CHR 0x0A # b) = split_nl a @ split_nl b"
proof (induction a)
  case Nil
  then show ?case by simp
next
  case (Cons c a)
  obtain p ps where "split_nl a = p # ps"
    using split_nl_nonempty [of a] by (cases "split_nl a") auto
  with Cons show ?case by simp
qed

text \<open>Appending a chunk only touches the last, unfinished piece.\<close>

lemma split_nl_append:
  "split_nl (a @ b) = butlast (split_nl a) @ split_nl (last (split_nl a) @ b)"
proof (induction a)
  case Nil
  then show ?case by simp
next
  case (Cons c a)
  obtain p ps where sp: "split_nl a = p # ps"
    using split_nl_nonempty [of a] by (cases "split_nl a") auto
  show ?case
  proof (cases "c = CHR 0x0A")
    case True
    with Cons sp show ?thesis by simp
  next
    case False
    show ?thesis
    proof (cases ps)
      case Nil
      with Cons sp False show ?thesis by simp
    next
      case (Cons q qs)
      with Cons.IH sp False show ?thesis by simp
    qed
  qed
qed

lemma on_data_buffer:
  "CHR 0x0A \<notin> set (fst (on_data parse panel mid chunk buf))"
  using split_nl_pieces [of "last (split_nl (buf @ chunk))" "buf @ chunk"]
    split_nl_nonempty [of "buf @ chunk"]
  by (simp add: on_data_def Let_def)

text \<open>
  The messages of a run of chunks are those of the complete lines of the text received,
  and the buffer that is left is its last, unfinished piece.
\<close>

lemma stream_run_chunks:
  assumes "CHR 0x0A \<notin> set buf"
  shows "stream_run parse panel mid buf (map Data chunks @ es) =
           (concat (map (data_line parse panel mid) (butlast (split_nl (buf @ concat chunks))))
              @ fst (stream_run parse panel mid (last (split_nl (buf @ concat chunks))) es),
            snd (stream_run parse panel mid (last (split_nl (buf @ concat chunks))) es))"
  using assms
proof (induction chunks arbitrary: buf)
  case Nil
  then show ?case by (simp add: split_nl_no_newline)
next
  case (Cons c cs)
  let ?buf' = "last (split_nl (buf @ c))"
  have buf': "CHR 0x0A \<notin> set ?buf'"
    using split_nl_pieces [of ?buf' "buf @ c"] split_nl_nonempty [of "buf @ c"] by simp
  have sp: "split_nl (buf @ concat (c # cs)) =
              butlast (split_nl (buf @ c)) @ split_nl (?buf' @ concat cs)"
    using split_nl_append [of "buf @ c" "concat cs"] by simp
  have b: "butlast (split_nl (buf @ concat (c # cs))) =
             butlast (split_nl (buf @ c)) @ butlast (split_nl (?buf' @ concat cs))"
    unfolding sp by (simp add: butlast_append split_nl_nonempty)
  have l: "last (split_nl (buf @ concat (c # cs))) = last (split_nl (?buf' @ concat cs))"
    unfolding sp by (simp add: split_nl_nonempty)
  have od: "on_data parse panel mid c buf =
              (?buf', concat (map (data_line parse panel mid) (butlast (split_nl (buf @ c)))))"
    by (simp add: on_data_def Let_def split_nl_nonempty)
  show ?case
    unfolding b l
    by (simp add: od Cons.IH [OF buf'] split_beta)
qed

lemma relay_lines:
  "relay parse panel mid chunks =
     concat (map (data_line parse panel mid) (butlast (split_nl (concat chunks))))
       @ on_end parse panel mid (last (split_nl (concat chunks)))"
  using stream_run_chunks [of "[]" parse panel mid chunks "[End]"]
  by (simp add: relay_def streamChatToWebview_def)

lemma on_end_empty: "on_end parse panel mid [] = []"
  by (simp add: on_end_def trim_def)

lemma complete_line_split:
  assumes "pre = [] \<or> last pre = CHR 0x0A" and "CHR 0x0A \<notin> set line"
  shows "\<exists>before. butlast (split_nl (pre @ line @ CHR 0x0A # rest))
           = before @ line # butlast (split_nl rest)"
proof (cases "pre = []")
  case True
  then show ?thesis
    using assms(2) split_nl_append_newline [of line rest]
    by (simp add: split_nl_no_newline butlast_append split_nl_nonempty)
next
  case False
  with assms(1) obtain p where p: "pre = p @ [CHR 0x0A]"
    by (metis append_butlast_last_id)
  have "split_nl (pre @ line @ CHR 0x0A # rest) = split_nl p @ [line] @ split_nl rest"
    using split_nl_append_newline [of p "line @ CHR 0x0A # rest"]
      split_nl_append_newline [of line rest] assms(2)
    by (simp add: p split_nl_no_newline)
  then show ?thesis
    by (simp add: butlast_append split_nl_nonempty)
qed

lemma trailing_split:
  assumes "pre = [] \<or> last pre = CHR 0x0A" and "CHR 0x0A \<notin> set tail"
  shows "butlast (split_nl (pre @ tail)) = butlast (split_nl pre)
       \<and> last (split_nl (pre @ tail)) = tail
       \<and> last (split_nl pre) = []"
proof (cases "pre = []")
  case True
  then show ?thesis using assms(2) by (simp add: split_nl_no_newline)
next
  case False
  with assms(1) obtain p where p: "pre = p @ [CHR 0x0A]"
    by (metis append_butlast_last_id)
  have "split_nl (pre @ tail) = split_nl p @ [tail]"
    using split_nl_append_newline [of p tail] assms(2) by (simp add: p split_nl_no_newline)
  moreover have "split_nl pre = split_nl p @ [[]]"
    using split_nl_append_newline [of p "[]"] by (simp add: p)
  ultimately show ?thesis by simp
qed


subsection \<open>C1: the chunking of the body does not matter\<close>

text \<open>
  C1. However the NDJSON body is cut into chunks, the relay posts the same messages in
  the same order as for the body in one chunk: the message of each complete line, then
  what the \<^verbatim>\<open>end\<close> handler makes of the unfinished rest. This holds for every parser
  and whether or not a panel is open.
\<close>

theorem relay_chunking:
  "relay parse panel mid chunks = relay parse panel mid [concat chunks]"
  by (simp add: relay_lines)

text \<open>
  The witness is the stream of the specification's second scenario, cut inside its
  records: two fragments and the terminal message come out, as for the whole body.
\<close>

theorem relay_chunking_witness:
  \<open>relay JSON_parse True (Some ''m1'')
     [''{"delta":"Hel"}\<newline>{"del'', ''ta":"lo"}\<newline>{"done":true,'',
      ''"text":"Hello"}\<newline>'']
   = [AiDelta (Some ''m1'') (JStr ''Hel''), AiDelta (Some ''m1'') (JStr ''lo''),
      AiDone (Some ''m1'') (JStr ''Hello'')]\<close>
proof -
  have \<open>relay JSON_parse True (Some ''m1'')
          [''{"delta":"Hel"}\<newline>{"delta":"lo"}\<newline>{"done":true,"text":"Hello"}\<newline>'']
        = [AiDelta (Some ''m1'') (JStr ''Hel''), AiDelta (Some ''m1'') (JStr ''lo''),
           AiDone (Some ''m1'') (JStr ''Hello'')]\<close>
    by code_simp
  then show ?thesis
    using relay_chunking [of JSON_parse True "Some ''m1''"
        \<open>[''{"delta":"Hel"}\<newline>{"del'', ''ta":"lo"}\<newline>{"done":true,'',
          ''"text":"Hello"}\<newline>'']\<close>]
    by simp
qed


subsection \<open>C5: lines that are not JSON\<close>

text \<open>
  C5, as stated: every complete line that fails to parse is forwarded as a fragment,
  none is dropped. A line of three spaces is complete and is not JSON, and the relay
  posts nothing for it: the loop skips every line that is empty after \<^verbatim>\<open>trim\<close>.
\<close>

theorem blank_line_counterexample:
  "JSON_parse ''   '' = None
   \<and> relay JSON_parse True (Some ''m1'') [''   \<newline>''] = []"
  by code_simp

text \<open>
  C5, amended: while a panel is open, every complete line of the stream (text between
  the start or a line feed and the next line feed) that holds a character other than
  white space and that fails to parse is posted, as it stands, as the \<^verbatim>\<open>delta\<close> of an
  \<^verbatim>\<open>aiDelta\<close> message.
\<close>

theorem unparsable_line_forwarded:
  assumes "concat chunks = pre @ line @ CHR 0x0A # rest"
      and "pre = [] \<or> last pre = CHR 0x0A"
      and "CHR 0x0A \<notin> set line"
      and "trim line \<noteq> []"
      and "parse line = None"
  shows "AiDelta mid (JStr line) \<in> set (relay parse True mid chunks)"
proof -
  obtain before where
    "butlast (split_nl (concat chunks)) = before @ line # butlast (split_nl rest)"
    using complete_line_split [OF assms(2,3), of rest] assms(1) by auto
  moreover have "data_line parse True mid line = [AiDelta mid (JStr line)]"
    using assms(4,5) by (simp add: data_line_def post_def)
  ultimately show ?thesis by (simp add: relay_lines)
qed

theorem unparsable_line_forwarded_witness:
  \<open>AiDelta (Some ''m1'') (JStr ''<b>oops</b>'')
     \<in> set (relay JSON_parse True (Some ''m1'')
              [''{"delta":"a"}\<newline><b>oo'', ''ps</b>\<newline>{"done":true}\<newline>''])\<close>
proof -
  have p: \<open>JSON_parse ''<b>oops</b>'' = None\<close> by code_simp
  have t: \<open>trim ''<b>oops</b>'' \<noteq> []\<close> by code_simp
  show ?thesis
    using unparsable_line_forwarded [of
        \<open>[''{"delta":"a"}\<newline><b>oo'', ''ps</b>\<newline>{"done":true}\<newline>'']\<close>
        \<open>''{"delta":"a"}\<newline>''\<close> \<open>''<b>oops</b>''\<close> \<open>''{"done":true}\<newline>''\<close>
        JSON_parse "Some ''m1''"] p t
    by simp
qed


subsection \<open>C9: a terminal record with empty text\<close>

lemma terminal_record_not_null:
  "truthy_opt (get_prop obj ''done'') \<Longrightarrow> obj \<noteq> JNull"
  by (auto simp: truthy_opt_def)

text \<open>
  C9. A record without \<^verbatim>\<open>delta\<close>, with a truthy \<^verbatim>\<open>done\<close> and with \<^verbatim>\<open>text: ""\<close> is
  forwarded as \<^verbatim>\<open>aiDone\<close> with \<^verbatim>\<open>text: null\<close>, by the loop over complete lines and by the
  \<^verbatim>\<open>end\<close> handler alike. The panel then leaves the bubble of a pending id as the
  fragments made it and only removes the id from \<^verbatim>\<open>pending\<close>.
\<close>

theorem empty_final_text_is_null:
  assumes "parse line = Some obj"
      and "get_prop obj ''delta'' = None"
      and "truthy_opt (get_prop obj ''done'')"
      and "get_prop obj ''text'' = Some (JStr [])"
      and "trim line \<noteq> []"
      and "pending_bubble w mid = Some (i, b)"
  shows "data_line parse True mid line = [AiDone mid JNull]
       \<and> on_end parse True mid line = [AiDone mid JNull]
       \<and> webview_run [AiDone mid JNull] w = w\<lparr>pending := map_delete i (pending w)\<rparr>"
proof (intro conjI)
  have obj: "obj \<noteq> JNull" using assms(3) by (rule terminal_record_not_null)
  show "data_line parse True mid line = [AiDone mid JNull]"
    using assms(1-5) obj
    by (cases obj) (simp_all add: data_line_def post_def or_null_def)
  show "on_end parse True mid line = [AiDone mid JNull]"
    using assms(1-5) obj
    by (cases obj) (simp_all add: on_end_def post_def or_null_def)
  show "webview_run [AiDone mid JNull] w = w\<lparr>pending := map_delete i (pending w)\<rparr>"
    using assms(6) by (simp add: webview_run_def)
qed

text \<open>
  The witness: the user sends a message, the fragment \<^verbatim>\<open>Hel\<close> arrives, then the record
  \<^verbatim>\<open>{"done":true,"text":""}\<close>. The bubble keeps the placeholder and the fragment.
\<close>

lemma streaming_webview_eq:
  "streaming_webview =
     \<lparr>chat = [(Ai, Text ''Welcome! Ask about your code, or paste a snippet and ask for analysis.''),
              (User, Text ''hi''), (Ai, Text (ellipsis @ ''Hel''))],
      pending = [(''m1'', 2)], counter = 1\<rparr>"
  by code_simp

theorem empty_final_text_is_null_witness:
  \<open>data_line JSON_parse True (Some ''m1'') ''{"done":true,"text":""}''
     = [AiDone (Some ''m1'') JNull]
   \<and> on_end JSON_parse True (Some ''m1'') ''{"done":true,"text":""}''
     = [AiDone (Some ''m1'') JNull]
   \<and> webview_run [AiDone (Some ''m1'') JNull] streaming_webview
     = \<lparr>chat = [(Ai, Text ''Welcome! Ask about your code, or paste a snippet and ask for analysis.''),
               (User, Text ''hi''), (Ai, Text (ellipsis @ ''Hel''))],
        pending = [], counter = 1\<rparr>\<close>
proof -
  have p: \<open>JSON_parse ''{"done":true,"text":""}''
             = Some (JObj [(''done'', JBool True), (''text'', JStr [])])\<close>
    by code_simp
  have t: \<open>trim ''{"done":true,"text":""}'' \<noteq> []\<close> by code_simp
  have b: "pending_bubble streaming_webview (Some ''m1'') = Some (''m1'', 2)"
    by (simp add: streaming_webview_eq pending_bubble_def map_get_def)
  show ?thesis
    using empty_final_text_is_null [of JSON_parse \<open>''{"done":true,"text":""}''\<close>
        "JObj [(''done'', JBool True), (''text'', JStr [])]" streaming_webview
        "Some ''m1''" "''m1''" 2] p t b
    by (simp add: truthy_opt_def streaming_webview_eq map_delete_def)
qed


text \<open>
  Had the empty text been forwarded as it is, the panel would have rendered it into the
  bubble and so emptied it.
\<close>

lemma empty_text_would_empty_bubble:
  assumes "pending_bubble w mid = Some (i, b)"
  shows "webview_run [AiDone mid (JStr [])] w
           = (set_content b (Html []) w)\<lparr>pending := map_delete i (pending w)\<rparr>"
  using assms by (simp add: webview_run_def renderMarkdown_def set_content_def)

subsection \<open>C10: a last record without its line feed\<close>

text \<open>
  When the body ends in text that has no line feed behind it and is not only white
  space, the messages are those of the complete lines before it, followed by what the
  \<^verbatim>\<open>end\<close> handler makes of that text. With a panel open it posts the text itself as a
  fragment when it does not parse (or parses to \<^verbatim>\<open>null\<close>, which throws on
  \<^verbatim>\<open>obj.delta\<close>), its \<^verbatim>\<open>delta\<close> as a fragment when it has one, and a terminal message when
  it has none and \<^verbatim>\<open>done\<close> is truthy.
\<close>

theorem trailing_buffer_interpreted:
  assumes "concat chunks = pre @ tail"
      and "pre = [] \<or> last pre = CHR 0x0A"
      and "CHR 0x0A \<notin> set tail"
      and "trim tail \<noteq> []"
  shows "relay parse panel mid chunks
           = relay parse panel mid [pre] @ on_end parse panel mid tail
       \<and> (parse tail = None \<or> parse tail = Some JNull \<longrightarrow>
            on_end parse True mid tail = [AiDelta mid (JStr tail)])
       \<and> (\<forall>obj d. parse tail = Some obj \<and> get_prop obj ''delta'' = Some d \<longrightarrow>
            on_end parse True mid tail = [AiDelta mid d])
       \<and> (\<forall>obj. parse tail = Some obj \<and> get_prop obj ''delta'' = None
              \<and> truthy_opt (get_prop obj ''done'') \<longrightarrow>
            on_end parse True mid tail = [AiDone mid (or_null (get_prop obj ''text''))])"
proof (intro conjI allI impI)
  show "relay parse panel mid chunks
          = relay parse panel mid [pre] @ on_end parse panel mid tail"
    using trailing_split [OF assms(2,3)] assms(1)
    by (simp add: relay_lines on_end_empty)
next
  assume "parse tail = None \<or> parse tail = Some JNull"
  then show "on_end parse True mid tail = [AiDelta mid (JStr tail)]"
    using assms(4) by (auto simp: on_end_def post_def)
next
  fix obj d
  assume "parse tail = Some obj \<and> get_prop obj ''delta'' = Some d"
  then show "on_end parse True mid tail = [AiDelta mid d]"
    using assms(4) by (cases obj) (simp_all add: on_end_def post_def)
next
  fix obj
  assume a: "parse tail = Some obj \<and> get_prop obj ''delta'' = None
               \<and> truthy_opt (get_prop obj ''done'')"
  then have "obj \<noteq> JNull" by (simp add: terminal_record_not_null)
  with a show "on_end parse True mid tail = [AiDone mid (or_null (get_prop obj ''text''))]"
    using assms(4) by (cases obj) (simp_all add: on_end_def post_def)
qed

text \<open>
  The witness: a body whose terminal record has no line feed behind it, arriving in two
  chunks. Both the fragment and the terminal message are posted.
\<close>

theorem trailing_buffer_interpreted_witness:
  \<open>relay JSON_parse True (Some ''m1'')
       [''{"delta":"Hel"}\<newline>{"done":true,'', ''"text":"Hello"}'']
     = [AiDelta (Some ''m1'') (JStr ''Hel''), AiDone (Some ''m1'') (JStr ''Hello'')]
   \<and> on_end JSON_parse True (Some ''m1'') ''{"done":true,"text":"Hello"}''
     = [AiDone (Some ''m1'') (JStr ''Hello'')]\<close>
proof -
  have p: \<open>JSON_parse ''{"done":true,"text":"Hello"}''
             = Some (JObj [(''done'', JBool True), (''text'', JStr ''Hello'')])\<close>
    by code_simp
  have t: \<open>trim ''{"done":true,"text":"Hello"}'' \<noteq> []\<close> by code_simp
  have h: \<open>relay JSON_parse True (Some ''m1'') [''{"delta":"Hel"}\<newline>'']
             = [AiDelta (Some ''m1'') (JStr ''Hel'')]\<close>
    by code_simp
  show ?thesis
    using trailing_buffer_interpreted [of
        \<open>[''{"delta":"Hel"}\<newline>{"done":true,'', ''"text":"Hello"}'']\<close>
        \<open>''{"delta":"Hel"}\<newline>''\<close> \<open>''{"done":true,"text":"Hello"}''\<close>
        JSON_parse True "Some ''m1''"] p t h
    by (simp add: truthy_opt_def or_null_def)
qed

text \<open>
  These are all the cases the \<^verbatim>\<open>end\<close> handler has. A rest that parses to a value with
  neither a \<^verbatim>\<open>delta\<close> nor a truthy \<^verbatim>\<open>done\<close> posts nothing there.
\<close>

lemma trailing_other_value:
  assumes "parse tail = Some obj" and "obj \<noteq> JNull"
      and "get_prop obj ''delta'' = None" and "\<not> truthy_opt (get_prop obj ''done'')"
  shows "on_end parse panel mid tail = []"
  using assms by (cases obj) (simp_all add: on_end_def)

text \<open>
  C10 says that text left at the end of the stream, when it is not only white space, is
  interpreted rather than discarded. The body that the backend sends with an error
  status, \<^verbatim>\<open>{"ok":false,"error":"Model error"}\<close>, is such a text: it has no line feed
  behind it and parses to an object with neither \<^verbatim>\<open>delta\<close> nor \<^verbatim>\<open>done\<close>. The \<^verbatim>\<open>end\<close>
  handler has no last \<^verbatim>\<open>else\<close> and posts nothing for it, where the loop over complete
  lines posts \<^verbatim>\<open>String(obj)\<close> for the same text; the turn of the user stays in
  \<^verbatim>\<open>pending\<close>.
\<close>

theorem trailing_value_dropped:
  \<open>trim ''{"ok":false,"error":"Model error"}'' \<noteq> []
   \<and> CHR 0x0A \<notin> set ''{"ok":false,"error":"Model error"}''
   \<and> JSON_parse ''{"ok":false,"error":"Model error"}''
       = Some (JObj [(''ok'', JBool False), (''error'', JStr ''Model error'')])
   \<and> relay JSON_parse True (Some ''m1'') [''{"ok":false,"error":"Model error"}''] = []
   \<and> relay JSON_parse True (Some ''m1'') [''{"ok":false,"error":"Model error"}\<newline>'']
       = [AiDelta (Some ''m1'') (JStr ''[object Object]'')]
   \<and> map_has
        (pending
          (webview_run
            (relay JSON_parse True (Some ''m1'') [''{"ok":false,"error":"Model error"}''])
            (fst (handleSend ''hi'' initial_webview))))
        ''m1''\<close>
  by code_simp


subsection \<open>C4: a failure in the middle of the stream\<close>

lemma webview_run_snoc:
  "webview_run (ms @ [m]) w = webview_receive m (webview_run ms w)"
  by (simp add: webview_run_def)

lemma map_get_None_iff: "map_get m k = None \<longleftrightarrow> \<not> map_has m k"
  by (simp add: map_get_def map_has_def map_of_eq_None_iff)

lemma done_null_clears_pending:
  assumes "i \<noteq> []"
  shows "\<not> map_has (pending (webview_receive (AiDone (Some i) JNull) w)) i"
proof (cases "map_get (pending w) i")
  case None
  have absent: "\<not> map_has (pending w) i"
    using None by (simp add: map_get_None_iff)
  show ?thesis
    using assms None absent by (simp add: pending_bubble_def)
next
  case (Some b)
  then show ?thesis
    using assms by (auto simp: pending_bubble_def map_has_def map_delete_def)
qed

lemma stream_run_failure:
  "streamChatToWebview parse panel mid (map Data chunks @ Failure e # later)
     = (fst (streamChatToWebview parse panel mid (map Data chunks)), Some (Rejected e))"
  using stream_run_chunks [of "[]" parse panel mid chunks "Failure e # later"]
    stream_run_chunks [of "[]" parse panel mid chunks "[]"]
  by (simp add: streamChatToWebview_def)

text \<open>A response that is cut off settles nothing: the messages are those of the chunks
  that arrived, and the promise stays pending.\<close>

lemma stream_cut_off:
  "streamChatToWebview parse panel mid (map Data chunks @ [Aborted])
     = (fst (streamChatToWebview parse panel mid (map Data chunks)), None)
   \<and> userMessage parse panel mid (map Data chunks @ [Aborted])
     = fst (streamChatToWebview parse panel mid (map Data chunks))"
proof -
  have "streamChatToWebview parse panel mid (map Data chunks @ [Aborted])
     = (fst (streamChatToWebview parse panel mid (map Data chunks)), None)"
    using stream_run_chunks [of "[]" parse panel mid chunks "[Aborted]"]
      stream_run_chunks [of "[]" parse panel mid chunks "[]"]
    by (simp add: streamChatToWebview_def)
  then show ?thesis by (simp add: userMessage_def)
qed

text \<open>
  C4, as stated, is about every failure of the connection in the middle of the stream.
  When the response is cut off after one fragment and the request emits no \<^verbatim>\<open>error\<close>,
  the promise of the stream is never settled: the fragment is all that is posted, no
  error fragment and no terminal message follow, and the id of the turn stays in
  \<^verbatim>\<open>pending\<close>.
\<close>

theorem stream_cut_off_counterexample:
  \<open>streamChatToWebview JSON_parse True (Some ''m1'')
       [Data ''{"delta":"Hel"}\<newline>'', Aborted]
     = ([AiDelta (Some ''m1'') (JStr ''Hel'')], None)
   \<and> userMessage JSON_parse True (Some ''m1'')
       [Data ''{"delta":"Hel"}\<newline>'', Aborted]
     = [AiDelta (Some ''m1'') (JStr ''Hel'')]
   \<and> map_has
        (pending
          (webview_run
            (userMessage JSON_parse True (Some ''m1'')
               [Data ''{"delta":"Hel"}\<newline>'', Aborted])
            (fst (handleSend ''hi'' initial_webview))))
        ''m1''\<close>
  by code_simp

text \<open>
  C4, amended: when the request emits \<^verbatim>\<open>error\<close> after some chunks of the body have
  arrived (as it does when the connection is reset), and a panel is open, the messages
  posted for the turn are the ones the chunks had produced, followed by one \<^verbatim>\<open>aiDelta\<close>
  whose text is the cross mark, \<^verbatim>\<open> Backend error: \<close> and the message of the error, and
  one \<^verbatim>\<open>aiDone\<close> with \<^verbatim>\<open>text: null\<close>; once the panel has received them, the id of the
  turn (a non-empty string, as the panel assigns them) is no longer in \<^verbatim>\<open>pending\<close>; and
  when all that arrived before the failure were fragments, that \<^verbatim>\<open>aiDone\<close> is the only
  terminal message of the turn.
\<close>

theorem stream_failure_closes_turn:
  assumes "i \<noteq> []"
      and "delivered = fst (streamChatToWebview parse True (Some i) (map Data chunks))"
      and "posted = userMessage parse True (Some i) (map Data chunks @ Failure e # later)"
  shows "posted = delivered @
           [AiDelta (Some i) (JStr ([CHR 0xE2, CHR 0x9D, CHR 0x8C] @ '' Backend error: '' @ e)),
            AiDone (Some i) JNull]
       \<and> \<not> map_has (pending (webview_run posted w)) i
       \<and> ((\<forall>m \<in> set delivered. \<not> is_done m) \<longrightarrow>
            filter is_done posted = [AiDone (Some i) JNull])"
proof -
  let ?err = "AiDelta (Some i) (JStr ([CHR 0xE2, CHR 0x9D, CHR 0x8C] @ '' Backend error: '' @ e))"
  have p: "posted = delivered @ [?err, AiDone (Some i) JNull]"
    unfolding assms(2,3)
    by (simp add: userMessage_def stream_run_failure post_def backend_error_def)
  have "webview_run posted w = webview_run ((delivered @ [?err]) @ [AiDone (Some i) JNull]) w"
    by (simp add: p)
  also have "\<dots> = webview_receive (AiDone (Some i) JNull) (webview_run (delivered @ [?err]) w)"
    by (rule webview_run_snoc)
  finally have "\<not> map_has (pending (webview_run posted w)) i"
    using done_null_clears_pending [OF assms(1)] by simp
  moreover have "filter is_done posted = [AiDone (Some i) JNull]"
    if "\<forall>m \<in> set delivered. \<not> is_done m"
    using that by (simp add: p)
  ultimately show ?thesis using p by blast
qed

text \<open>
  The witness is the specification's fourth scenario: one fragment arrives, then the
  connection is reset. The panel shows the fragment and the error text in the bubble of
  the turn, and the turn is no longer pending.
\<close>

theorem stream_failure_closes_turn_witness:
  \<open>userMessage JSON_parse True (Some ''m1'')
       [Data ''{"delta":"Hel"}\<newline>'', Failure ''read ECONNRESET'']
     = [AiDelta (Some ''m1'') (JStr ''Hel''),
        AiDelta (Some ''m1'')
          (JStr ([CHR 0xE2, CHR 0x9D, CHR 0x8C] @ '' Backend error: read ECONNRESET'')),
        AiDone (Some ''m1'') JNull]
   \<and> \<not> map_has (pending (webview_run
          (userMessage JSON_parse True (Some ''m1'')
             [Data ''{"delta":"Hel"}\<newline>'', Failure ''read ECONNRESET''])
          (fst (handleSend ''hi'' initial_webview)))) ''m1''
   \<and> filter is_done (userMessage JSON_parse True (Some ''m1'')
          [Data ''{"delta":"Hel"}\<newline>'', Failure ''read ECONNRESET''])
     = [AiDone (Some ''m1'') JNull]
   \<and> chat (webview_run
          (userMessage JSON_parse True (Some ''m1'')
             [Data ''{"delta":"Hel"}\<newline>'', Failure ''read ECONNRESET''])
          (fst (handleSend ''hi'' initial_webview))) ! 2
     = (Ai, Text (ellipsis @ ''Hel'' @ [CHR 0xE2, CHR 0x9D, CHR 0x8C]
                  @ '' Backend error: read ECONNRESET''))\<close>
proof -
  have d: \<open>fst (streamChatToWebview JSON_parse True (Some ''m1'')
                  (map Data [''{"delta":"Hel"}\<newline>'']))
             = [AiDelta (Some ''m1'') (JStr ''Hel'')]\<close>
    by code_simp
  have c: \<open>chat (webview_run
          [AiDelta (Some ''m1'') (JStr ''Hel''),
           AiDelta (Some ''m1'')
             (JStr ([CHR 0xE2, CHR 0x9D, CHR 0x8C] @ '' Backend error: read ECONNRESET'')),
           AiDone (Some ''m1'') JNull]
          (fst (handleSend ''hi'' initial_webview))) ! 2
     = (Ai, Text (ellipsis @ ''Hel'' @ [CHR 0xE2, CHR 0x9D, CHR 0x8C]
                  @ '' Backend error: read ECONNRESET''))\<close>
    by code_simp
  show ?thesis
    using stream_failure_closes_turn [OF _ refl refl, of "''m1''" JSON_parse
        \<open>[''{"delta":"Hel"}\<newline>'']\<close> "''read ECONNRESET''" "[]"
        "fst (handleSend ''hi'' initial_webview)"] d c
    by (intro conjI; simp)
qed


section \<open>Properties of the Markdown renderer\<close>

lemma built_from_append:
  "built_from ts a \<Longrightarrow> built_from ts b \<Longrightarrow> built_from ts (a @ b)"
  by (induction rule: built_from.induct) (auto intro: built_from.intros)

lemma built_from_mono:
  "built_from ts s \<Longrightarrow> set ts \<subseteq> set ts' \<Longrightarrow> built_from ts' s"
  by (induction rule: built_from.induct) (auto intro: built_from.intros)

lemma built_from_piece: "t \<in> set ts \<Longrightarrow> built_from ts t"
  using built_from.piece [of t ts "[]"] by (simp add: built_from.empty)

lemma built_from_plain: "\<forall>c \<in> set s. plain c \<Longrightarrow> built_from ts s"
  by (induction s) (auto intro: built_from.intros)

text \<open>A character that occurs in no piece separates what is built from pieces.\<close>

lemma built_from_cut:
  assumes "built_from ts x" and "x = a @ c # b" and "\<forall>t \<in> set ts. c \<notin> set t"
  shows "built_from ts a \<and> built_from ts b"
  using assms
proof (induction arbitrary: a rule: built_from.induct)
  case empty
  then show ?case by simp
next
  case (char d s)
  show ?case
  proof (cases a)
    case Nil
    with char show ?thesis by (auto intro: built_from.intros)
  next
    case (Cons d' a')
    with char.prems have "s = a' @ c # b" and "d' = d" by auto
    with char.IH [of a'] char.prems(2) char.hyps(1) Cons show ?thesis
      by (auto intro: built_from.intros)
  qed
next
  case (piece t s)
  from piece.prems(1) obtain u where
    "(t = a @ u \<and> u @ s = c # b) \<or> (t @ u = a \<and> s = u @ c # b)"
    by (auto simp: append_eq_append_conv2)
  then show ?case
  proof
    assume l: "t = a @ u \<and> u @ s = c # b"
    show ?thesis
    proof (cases u)
      case Nil
      with l have "t = a" "s = [] @ c # b" by auto
      with piece.IH [of "[]"] piece.prems(2) piece.hyps(1) show ?thesis
        by (auto intro: built_from_piece)
    next
      case (Cons c' u')
      with l have "c \<in> set t" by auto
      with piece.hyps(1) piece.prems(2) show ?thesis by blast
    qed
  next
    assume r: "t @ u = a \<and> s = u @ c # b"
    with piece.IH [of u] piece.prems(2) have "built_from ts u" "built_from ts b" by auto
    with r piece.hyps(1) show ?thesis by (auto intro: built_from.intros)
  qed
qed

lemma replace_char_append:
  "replace_char c r (a @ b) = replace_char c r a @ replace_char c r b"
  by (simp add: replace_char_def)

lemma replace_char_Cons:
  "replace_char c r (x # s) = (if x = c then r else [x]) @ replace_char c r s"
  by (simp add: replace_char_def)

lemma replace_char_absent: "c \<notin> set s \<Longrightarrow> replace_char c r s = s"
  by (induction s) (auto simp: replace_char_def)

lemma escapeHtml_Cons: "escapeHtml (x # s) = escape_char x @ escapeHtml s"
  by (simp add: escapeHtml_def escape_char_def replace_char_Cons replace_char_append)
     (simp add: replace_char_def)

lemma escapeHtml_chars: "escapeHtml s = concat (map escape_char s)"
proof (induction s)
  case Nil
  show ?case by (simp add: escapeHtml_def replace_char_def)
next
  case (Cons x s)
  then show ?case by (simp add: escapeHtml_Cons)
qed

lemma escaped_escapeHtml: "escaped_text (escapeHtml s)"
proof (induction s)
  case Nil
  show ?case by (simp add: escapeHtml_chars escaped_text_def built_from.empty)
next
  case (Cons x s)
  have "escape_char x \<in> set entities \<or> (escape_char x = [x] \<and> plain x)"
    by (simp add: escape_char_def entities_def plain_def)
  then consider "escape_char x \<in> set entities" | "escape_char x = [x]" "plain x"
    by blast
  then show ?case
  proof cases
    case 1
    with Cons show ?thesis
      by (simp add: escapeHtml_Cons escaped_text_def built_from.piece)
  next
    case 2
    with Cons show ?thesis
      by (simp add: escapeHtml_Cons escaped_text_def built_from.char)
  qed
qed


lemma split_at_fence_shape:
  "split_at_fence s = Some (code, rest) \<Longrightarrow> s = code @ fence @ rest"
proof (induction s arbitrary: code)
  case Nil
  then show ?case by simp
next
  case (Cons c cs)
  show ?case
  proof (cases "take 3 (c # cs) = fence")
    case True
    with Cons.prems have "code = []" "rest = drop 3 (c # cs)" by auto
    with True show ?thesis by (metis append_Nil append_take_drop_id)
  next
    case False
    with Cons.prems obtain b where "split_at_fence cs = Some (b, rest)" "code = c # b"
      by auto
    with Cons.IH [of b] show ?thesis by simp
  qed
qed

lemma match_fence_shape:
  assumes "match_fence s = Some (lang, code, rest)"
  shows "s = fence @ lang @ CHR 0x0A # code @ fence @ rest"
proof -
  from assms obtain r where t: "take 3 s = fence"
    and d: "dropWhile is_word (drop 3 s) = CHR 0x0A # r"
    and l: "lang = takeWhile is_word (drop 3 s)"
    and sp: "split_at_fence r = Some (code, rest)"
    by (auto simp: match_fence_def split: if_splits list.splits)
  have "s = take 3 s @ takeWhile is_word (drop 3 s) @ dropWhile is_word (drop 3 s)"
    by simp
  with t d l split_at_fence_shape [OF sp] show ?thesis by simp
qed

lemma no_backquote_in_pieces: "\<forall>t \<in> set (entities @ markup_pieces). CHR 0x60 \<notin> set t"
  by (simp add: entities_def markup_pieces_def block_open_def block_toolbar_def
      block_attr_end_def block_close_def inline_open_def inline_close_def)

lemma no_newline_in_pieces: "\<forall>t \<in> set (entities @ markup_pieces). CHR 0x0A \<notin> set t"
  by (simp add: entities_def markup_pieces_def block_open_def block_toolbar_def
      block_attr_end_def block_close_def inline_open_def inline_close_def)

lemma no_space_in_entities: "is_space c \<Longrightarrow> \<forall>t \<in> set entities. c \<notin> set t"
  by (auto simp: is_space_def entities_def)

lemma no_backquote_in_entities: "\<forall>t \<in> set entities. CHR 0x60 \<notin> set t"
  by (simp add: entities_def)

lemma escaped_tl:
  assumes "escaped_text (c # s)" and "is_space c \<or> c = CHR 0x60"
  shows "escaped_text s"
  using built_from_cut [of entities "c # s" "[]" c s] assms
    no_space_in_entities [of c] no_backquote_in_entities
  by (auto simp: escaped_text_def)

lemma escaped_butlast:
  assumes "escaped_text (s @ [c])" and "is_space c"
  shows "escaped_text s"
  using built_from_cut [of entities "s @ [c]" s c "[]"] assms no_space_in_entities [of c]
  by (auto simp: escaped_text_def)

lemma escaped_dropWhile: "escaped_text s \<Longrightarrow> escaped_text (dropWhile is_space s)"
proof (induction s)
  case Nil
  then show ?case by simp
next
  case (Cons c s)
  then show ?case using escaped_tl [of c s] by auto
qed

lemma escaped_drop_end: "escaped_text s \<Longrightarrow> escaped_text (rev (dropWhile is_space (rev s)))"
proof (induction s rule: rev_induct)
  case Nil
  then show ?case by simp
next
  case (snoc c s)
  then show ?case using escaped_butlast [of s c] by auto
qed

lemma escaped_trim: "escaped_text s \<Longrightarrow> escaped_text (trim s)"
  unfolding trim_def by (intro escaped_drop_end escaped_dropWhile)

lemma escaped_no_quote: "escaped_text s \<Longrightarrow> CHR 0x22 \<notin> set s"
  unfolding escaped_text_def
  by (induction rule: built_from.induct) (auto simp: plain_def entities_def)

lemma escaped_safe: "escaped_text s \<Longrightarrow> safe_markup s"
  unfolding escaped_text_def safe_markup_def by (erule built_from_mono) simp

lemma safe_append: "safe_markup a \<Longrightarrow> safe_markup b \<Longrightarrow> safe_markup (a @ b)"
  unfolding safe_markup_def by (rule built_from_append)

lemma safe_piece: "t \<in> set markup_pieces \<Longrightarrow> safe_markup t"
  unfolding safe_markup_def by (rule built_from_piece) simp

lemma safe_code_block:
  assumes "escaped_text lang" and "escaped_text code"
  shows "safe_markup (code_block lang code)"
proof -
  have c: "escaped_text (trim code)" using assms(2) by (rule escaped_trim)
  then have d: "replace_char (CHR 0x22) ''&quot;'' (trim code) = trim code"
    by (intro replace_char_absent escaped_no_quote)
  have "safe_markup ''code''"
    unfolding safe_markup_def by (rule built_from_plain) (simp add: plain_def)
  then have l: "safe_markup (if lang = [] then ''code'' else lang)"
    using escaped_safe [OF assms(1)] by simp
  show ?thesis
    unfolding code_block_def Let_def d
    by (intro safe_append l escaped_safe [OF c] safe_piece) (simp_all add: markup_pieces_def)
qed

lemma escaped_cut:
  assumes "escaped_text (a @ c # b)" and "is_space c \<or> c = CHR 0x60"
  shows "escaped_text a \<and> escaped_text b"
  using built_from_cut [of entities "a @ c # b" a c b] assms
    no_space_in_entities [of c] no_backquote_in_entities
  by (auto simp: escaped_text_def)

lemma escaped_fence_parts:
  assumes "escaped_text (pre @ fence @ lang @ CHR 0x0A # code @ fence @ rest)"
  shows "escaped_text pre \<and> escaped_text lang \<and> escaped_text code \<and> escaped_text rest"
proof -
  have nl: "is_space (CHR 0x0A)" by (simp add: is_space_def)
  from assms have 1: "escaped_text pre"
    and 2: "escaped_text (CHR 0x60 # CHR 0x60 # lang @ CHR 0x0A # code @ fence @ rest)"
    using escaped_cut [of pre "CHR 0x60" "CHR 0x60 # CHR 0x60 # lang @ CHR 0x0A # code @ fence @ rest"]
    by (simp_all add: fence_def)
  from 2 have "escaped_text (lang @ CHR 0x0A # code @ fence @ rest)"
    by (blast intro: escaped_tl)
  then have 3: "escaped_text lang" and 4: "escaped_text (code @ fence @ rest)"
    using escaped_cut [of lang "CHR 0x0A" "code @ fence @ rest"] nl by simp_all
  from 4 have 5: "escaped_text code" and 6: "escaped_text (CHR 0x60 # CHR 0x60 # rest)"
    using escaped_cut [of code "CHR 0x60" "CHR 0x60 # CHR 0x60 # rest"]
    by (simp_all add: fence_def)
  from 6 have "escaped_text rest" by (blast intro: escaped_tl)
  with 1 3 5 show ?thesis by simp
qed

lemma safe_replace_fences:
  "escaped_text (pre @ s) \<Longrightarrow> safe_markup (pre @ replace_fences s)"
proof (induction s arbitrary: pre rule: replace_fences.induct)
  case 1
  then show ?case by (simp add: escaped_safe)
next
  case (2 c cs)
  show ?case
  proof (cases "match_fence (c # cs)")
    case None
    with "2.IH"(1) [OF None, of "pre @ [c]"] "2.prems" show ?thesis by simp
  next
    case (Some m)
    then obtain lang code rest where m: "match_fence (c # cs) = Some (lang, code, rest)"
      by (cases m) auto
    note shape = match_fence_shape [OF m]
    from "2.prems" have parts: "escaped_text pre" "escaped_text lang" "escaped_text code"
      "escaped_text rest"
      using escaped_fence_parts [of pre lang code rest] by (simp_all add: shape)
    have "safe_markup ([] @ replace_fences rest)"
      by (rule "2.IH"(2) [OF m refl refl]) (simp add: parts(4))
    with parts show ?thesis
      by (simp add: m safe_append escaped_safe safe_code_block)
  qed
qed


lemma safe_cut:
  assumes "safe_markup (a @ c # b)" and "c = CHR 0x60 \<or> c = CHR 0x0A"
  shows "safe_markup a \<and> safe_markup b"
  using built_from_cut [of "entities @ markup_pieces" "a @ c # b" a c b] assms
    no_backquote_in_pieces no_newline_in_pieces
  by (auto simp: safe_markup_def)

lemma safe_replace_inline:
  "safe_markup (pre @ s) \<Longrightarrow> safe_markup (pre @ replace_inline s)"
proof (induction s arbitrary: pre rule: replace_inline.induct)
  case 1
  then show ?case by simp
next
  case (2 c cs)
  let ?run = "takeWhile in_span cs"
  let ?rest = "drop 1 (dropWhile in_span cs)"
  show ?case
  proof (cases "c = CHR 0x60 \<and> ?run \<noteq> [] \<and> take 1 (dropWhile in_span cs) = [CHR 0x60]")
    case True
    then have d: "dropWhile in_span cs = CHR 0x60 # ?rest"
      by (cases "dropWhile in_span cs") auto
    have "cs = ?run @ dropWhile in_span cs" by simp
    with d have cs: "cs = ?run @ CHR 0x60 # ?rest" by simp
    from "2.prems" True have "safe_markup (pre @ CHR 0x60 # cs)" by simp
    then have p: "safe_markup pre" and "safe_markup cs"
      using safe_cut [of pre "CHR 0x60" cs] by simp_all
    then have "safe_markup (?run @ CHR 0x60 # ?rest)" using cs by simp
    then have r: "safe_markup ?run" and t: "safe_markup ?rest"
      using safe_cut [of ?run "CHR 0x60" ?rest] by simp_all
    have i: "safe_markup ([] @ replace_inline ?rest)"
      by (rule "2.IH"(1) [OF True]) (use t in simp)
    have "safe_markup inline_open" "safe_markup inline_close"
      by (rule safe_piece, simp add: markup_pieces_def)+
    then have "safe_markup (pre @ inline_open @ ?run @ inline_close @ replace_inline ?rest)"
      using p r i by (intro safe_append) simp_all
    with True show ?thesis by simp
  next
    case False
    with "2.IH"(2) [of "pre @ [c]"] "2.prems" show ?thesis by auto
  qed
qed

lemma safe_drop_newlines:
  "safe_markup s \<Longrightarrow> safe_markup (dropWhile (\<lambda>x. x = CHR 0x0A) s)"
proof (induction s)
  case Nil
  then show ?case by simp
next
  case (Cons c s)
  then show ?case using safe_cut [of "[]" c s] by auto
qed

lemma safe_replace_paragraphs:
  "safe_markup (pre @ s) \<Longrightarrow> safe_markup (pre @ replace_paragraphs s)"
proof (induction s arbitrary: pre rule: replace_paragraphs.induct)
  case 1
  then show ?case by simp
next
  case (2 c cs)
  show ?case
  proof (cases "c = CHR 0x0A \<and> take 1 cs = [CHR 0x0A]")
    case True
    with "2.prems" have p: "safe_markup pre" and "safe_markup cs"
      using safe_cut [of pre "CHR 0x0A" cs] by simp_all
    then have "safe_markup (dropWhile (\<lambda>x. x = CHR 0x0A) cs)"
      by (simp add: safe_drop_newlines)
    then have i: "safe_markup ([] @ replace_paragraphs (dropWhile (\<lambda>x. x = CHR 0x0A) cs))"
      by (intro "2.IH"(1) [OF True]) simp
    have "safe_markup ''</p><p>''"
      by (rule safe_piece) (simp add: markup_pieces_def)
    then have "safe_markup
        (pre @ ''</p><p>'' @ replace_paragraphs (dropWhile (\<lambda>x. x = CHR 0x0A) cs))"
      using p i by (intro safe_append) simp_all
    with True show ?thesis by simp
  next
    case False
    with "2.IH"(2) [of "pre @ [c]"] "2.prems" show ?thesis by auto
  qed
qed

lemma safe_replace_newlines:
  "safe_markup (pre @ s) \<Longrightarrow> safe_markup (pre @ replace_char (CHR 0x0A) ''<br>'' s)"
proof (induction s arbitrary: pre)
  case Nil
  then show ?case by (simp add: replace_char_def)
next
  case (Cons c s)
  show ?case
  proof (cases "c = CHR 0x0A")
    case True
    with Cons.prems have p: "safe_markup pre" and "safe_markup s"
      using safe_cut [of pre c s] by simp_all
    then have i: "safe_markup ([] @ replace_char (CHR 0x0A) ''<br>'' s)"
      by (intro Cons.IH) simp
    have "safe_markup ''<br>''"
      by (rule safe_piece) (simp add: markup_pieces_def)
    then have "safe_markup (pre @ ''<br>'' @ replace_char (CHR 0x0A) ''<br>'' s)"
      using p i by (intro safe_append) simp_all
    with True show ?thesis by (simp add: replace_char_Cons)
  next
    case False
    with Cons.IH [of "pre @ [c]"] Cons.prems show ?thesis
      by (simp add: replace_char_Cons)
  qed
qed

lemma safe_render_text: "safe_markup (render_text md)"
proof -
  have "safe_markup ([] @ replace_fences (escapeHtml md))"
    by (rule safe_replace_fences) (simp add: escaped_escapeHtml)
  then have "safe_markup ([] @ replace_inline (replace_fences (escapeHtml md)))"
    by (intro safe_replace_inline)
  then have "safe_markup ([] @ replace_paragraphs (replace_inline (replace_fences (escapeHtml md))))"
    by (intro safe_replace_paragraphs)
  then have "safe_markup ([] @ replace_char (CHR 0x0A) ''<br>''
      (replace_paragraphs (replace_inline (replace_fences (escapeHtml md)))))"
    by (intro safe_replace_newlines)
  then have mid: "safe_markup (replace_char (CHR 0x0A) ''<br>''
      (replace_paragraphs (replace_inline (replace_fences (escapeHtml md)))))"
    by simp
  have "safe_markup ''<p>''" "safe_markup ''</p>''"
    by (rule safe_piece, simp add: markup_pieces_def)+
  then show ?thesis
    unfolding render_text_def using mid by (intro safe_append)
qed

subsection \<open>Forgetting the marks\<close>

lemma chars_written: "map fst (written s) = s"
  by (simp add: written_def comp_def)

lemma chars_from_input: "map fst (from_input s) = s"
  by (simp add: from_input_def comp_def)

lemma chars_replace_entity:
  "map fst (t_replace_entity c rep s) = replace_char c rep (map fst s)"
  by (induction s) (simp_all add: t_replace_entity_def replace_char_def comp_def)

lemma chars_replace_markup:
  "map fst (t_replace_markup c rep s) = replace_char c rep (map fst s)"
  by (induction s) (simp_all add: t_replace_markup_def replace_char_def chars_written)

lemma chars_escapeHtml: "map fst (t_escapeHtml s) = escapeHtml (map fst s)"
  by (simp add: t_escapeHtml_def escapeHtml_def chars_replace_entity)

lemma chars_split_at_fence:
  "map_option (\<lambda>(b, a). (map fst b, map fst a)) (t_split_at_fence s)
     = split_at_fence (map fst s)"
proof (induction s)
  case Nil
  show ?case by simp
next
  case (Cons c cs)
  have t: "map fst (take 3 (c # cs)) = take 3 (map fst (c # cs))"
    by (simp only: take_map)
  show ?case
  proof (cases "map fst (take 3 (c # cs)) = fence")
    case True
    with t show ?thesis by (simp add: drop_map del: take_Suc_Cons)
  next
    case False
    have "split_at_fence (map fst (c # cs))
            = map_option (\<lambda>(b, a). (fst c # b, a)) (split_at_fence (map fst cs))"
      using False t by (simp del: take_Suc_Cons)
    also have "\<dots> = map_option (\<lambda>(b, a). (map fst b, map fst a))
                      (map_option (\<lambda>(b, a). (c # b, a)) (t_split_at_fence cs))"
      unfolding Cons.IH [symmetric] by (simp add: option.map_comp comp_def split_beta)
    finally show ?thesis using False by simp
  qed
qed

lemma chars_trim: "map fst (t_trim s) = trim (map fst s)"
  by (simp add: t_trim_def trim_def dropWhile_map rev_map comp_def)


lemma chars_match_fence:
  "map_option (\<lambda>(l, c, r). (map fst l, map fst c, map fst r)) (t_match_fence s)
     = match_fence (map fst s)"
proof -
  let ?d = "dropWhile (\<lambda>x. is_word (fst x)) (drop 3 s)"
  let ?w = "takeWhile (\<lambda>x. is_word (fst x)) (drop 3 s)"
  have d: "dropWhile is_word (drop 3 (map fst s)) = map fst ?d"
    by (simp add: drop_map dropWhile_map comp_def)
  have w: "takeWhile is_word (drop 3 (map fst s)) = map fst ?w"
    by (simp add: drop_map takeWhile_map comp_def)
  have t: "take 3 (map fst s) = map fst (take 3 s)"
    by (simp add: take_map)
  show ?thesis
  proof (cases "map fst (take 3 s) = fence")
    case False
    then show ?thesis by (simp add: t_match_fence_def match_fence_def t)
  next
    case True
    show ?thesis
    proof (cases ?d)
      case Nil
      with True show ?thesis
        by (simp add: t_match_fence_def match_fence_def t d del: dropWhile_eq_Nil_conv)
    next
      case (Cons x r)
      show ?thesis
      proof (cases "fst x = CHR 0x0A")
        case False
        with True Cons show ?thesis by (simp add: t_match_fence_def match_fence_def t d)
      next
        case nl: True
        have "match_fence (map fst s)
                = map_option (\<lambda>(code, rest). (map fst ?w, code, rest))
                    (split_at_fence (map fst r))"
          using True Cons nl by (simp add: match_fence_def t d w)
        also have "\<dots> = map_option (\<lambda>(l, c, r). (map fst l, map fst c, map fst r))
                          (map_option (\<lambda>(code, rest). (?w, code, rest)) (t_split_at_fence r))"
          unfolding chars_split_at_fence [symmetric]
          by (simp add: option.map_comp comp_def split_beta)
        finally show ?thesis using True Cons nl by (simp add: t_match_fence_def)
      qed
    qed
  qed
qed

lemma chars_code_block:
  "map fst (t_code_block lang code) = code_block (map fst lang) (map fst code)"
  by (simp add: t_code_block_def code_block_def Let_def chars_written chars_trim
      chars_replace_entity)

lemma chars_replace_fences: "map fst (t_replace_fences s) = replace_fences (map fst s)"
proof (induction s rule: t_replace_fences.induct)
  case 1
  show ?case by simp
next
  case (2 c cs)
  show ?case
  proof (cases "t_match_fence (c # cs)")
    case None
    then have "match_fence (map fst (c # cs)) = None"
      using chars_match_fence [of "c # cs"] by simp
    with None "2.IH"(1) show ?thesis by simp
  next
    case (Some m)
    then obtain l cd r where m: "t_match_fence (c # cs) = Some (l, cd, r)"
      by (cases m) auto
    then have "match_fence (map fst (c # cs)) = Some (map fst l, map fst cd, map fst r)"
      using chars_match_fence [of "c # cs"] by simp
    with m "2.IH"(2) [OF m refl refl] show ?thesis
      by (simp add: chars_code_block)
  qed
qed

lemma chars_replace_inline: "map fst (t_replace_inline s) = replace_inline (map fst s)"
proof (induction s rule: t_replace_inline.induct)
  case 1
  show ?case by simp
next
  case (2 c cs)
  let ?run = "takeWhile (\<lambda>x. in_span (fst x)) cs"
  let ?d = "dropWhile (\<lambda>x. in_span (fst x)) cs"
  have r: "takeWhile in_span (map fst cs) = map fst ?run"
    by (simp add: takeWhile_map comp_def)
  have d: "dropWhile in_span (map fst cs) = map fst ?d"
    by (simp add: dropWhile_map comp_def)
  show ?case
  proof (cases "fst c = CHR 0x60 \<and> ?run \<noteq> [] \<and> map fst (take 1 ?d) = [CHR 0x60]")
    case True
    with "2.IH"(1) [OF True] show ?thesis
      by (simp add: r d chars_written take_map drop_map)
  next
    case False
    with "2.IH"(2) [OF False] show ?thesis
      by (auto simp: r d take_map)
  qed
qed

lemma chars_replace_paragraphs:
  "map fst (t_replace_paragraphs s) = replace_paragraphs (map fst s)"
proof (induction s rule: t_replace_paragraphs.induct)
  case 1
  show ?case by simp
next
  case (2 c cs)
  have d: "dropWhile (\<lambda>x. x = CHR 0x0A) (map fst cs)
             = map fst (dropWhile (\<lambda>x. fst x = CHR 0x0A) cs)"
    by (simp add: dropWhile_map comp_def)
  show ?case
  proof (cases "fst c = CHR 0x0A \<and> map fst (take 1 cs) = [CHR 0x0A]")
    case True
    with "2.IH"(1) [OF True] show ?thesis
      by (simp add: d chars_written take_map)
  next
    case False
    with "2.IH"(2) [OF False] show ?thesis
      by (auto simp: take_map)
  qed
qed

lemma chars_render_text: "map fst (t_render_text md) = render_text md"
  by (simp add: t_render_text_def render_text_def chars_written chars_replace_markup
      chars_replace_paragraphs chars_replace_inline chars_replace_fences chars_escapeHtml
      chars_from_input)


subsection \<open>What is marked as input\<close>

lemma unmarked_written: "\<forall>x \<in> set (written s). unmarked x"
  by (simp add: written_def unmarked_def)

lemma in_replace_entity:
  "x \<in> set (t_replace_entity c rep s) \<Longrightarrow> (x \<in> set s \<and> fst x \<noteq> c) \<or> fst x \<in> set rep"
  by (auto simp: t_replace_entity_def split: if_splits)

lemma unmarked_escapeHtml: "\<forall>x \<in> set (t_escapeHtml s). unmarked x"
proof
  fix x assume "x \<in> set (t_escapeHtml s)"
  then have "fst x \<in> set ''&quot;'' \<or> fst x \<in> set ''&gt;'' \<or> fst x \<in> set ''&lt;''
      \<or> fst x \<in> set ''&amp;''
      \<or> (fst x \<noteq> CHR 0x22 \<and> fst x \<noteq> CHR ''>'' \<and> fst x \<noteq> CHR ''<'')"
    unfolding t_escapeHtml_def by (blast dest: in_replace_entity)
  then show "unmarked x" by (auto simp: unmarked_def)
qed

lemma unmarked_replace_quote:
  assumes "\<forall>x \<in> set s. unmarked x"
  shows "\<forall>x \<in> set (t_replace_entity (CHR 0x22) ''&quot;'' s). unmarked x"
proof
  fix x assume "x \<in> set (t_replace_entity (CHR 0x22) ''&quot;'' s)"
  then have "x \<in> set s \<or> fst x \<in> set ''&quot;''" by (blast dest: in_replace_entity)
  with assms show "unmarked x" by (auto simp: unmarked_def)
qed

lemma unmarked_replace_markup:
  assumes "\<forall>x \<in> set s. unmarked x"
  shows "\<forall>x \<in> set (t_replace_markup c rep s). unmarked x"
  using assms unmarked_written [of rep]
  by (auto simp: t_replace_markup_def split: if_splits)

lemma set_split_at_fence:
  "t_split_at_fence s = Some (b, a) \<Longrightarrow> set b \<subseteq> set s \<and> set a \<subseteq> set s"
proof (induction s arbitrary: b)
  case Nil
  then show ?case by simp
next
  case (Cons c cs)
  show ?case
  proof (cases "map fst (take 3 (c # cs)) = fence")
    case True
    with Cons.prems have "b = []" "a = drop 3 (c # cs)" by auto
    then show ?thesis using set_drop_subset [of 3 "c # cs"] by simp
  next
    case False
    with Cons.prems obtain b' where "t_split_at_fence cs = Some (b', a)" "b = c # b'"
      by auto
    with Cons.IH [of b'] show ?thesis by auto
  qed
qed

lemma set_match_fence:
  assumes "t_match_fence s = Some (l, c, r)"
  shows "set l \<subseteq> set s \<and> set c \<subseteq> set s \<and> set r \<subseteq> set s"
proof -
  from assms obtain x r' where d: "dropWhile (\<lambda>x. is_word (fst x)) (drop 3 s) = x # r'"
    and l: "l = takeWhile (\<lambda>x. is_word (fst x)) (drop 3 s)"
    and sp: "t_split_at_fence r' = Some (c, r)"
    by (auto simp: t_match_fence_def split: if_splits list.splits)
  have "set r' \<subseteq> set (dropWhile (\<lambda>x. is_word (fst x)) (drop 3 s))"
    by (auto simp: d)
  also have "\<dots> \<subseteq> set (drop 3 s)" by (auto dest: set_dropWhileD)
  also have "\<dots> \<subseteq> set s" by (rule set_drop_subset)
  finally have "set r' \<subseteq> set s" .
  moreover have "set l \<subseteq> set s"
    unfolding l using set_drop_subset [of 3 s] by (auto dest: set_takeWhileD)
  ultimately show ?thesis using set_split_at_fence [OF sp] by blast
qed

lemma set_trim: "set (t_trim s) \<subseteq> set s"
  unfolding t_trim_def by (auto dest!: set_dropWhileD)

lemma unmarked_code_block:
  assumes "\<forall>x \<in> set lang. unmarked x" and "\<forall>x \<in> set code. unmarked x"
  shows "\<forall>x \<in> set (t_code_block lang code). unmarked x"
proof -
  have c: "\<forall>x \<in> set (t_trim code). unmarked x"
    using assms(2) set_trim [of code] by blast
  show ?thesis
    unfolding t_code_block_def Let_def
    using assms(1) c unmarked_replace_quote [OF c] unmarked_written
    by (simp add: ball_Un)
qed


lemma unmarked_replace_fences:
  "\<forall>x \<in> set s. unmarked x \<Longrightarrow> \<forall>x \<in> set (t_replace_fences s). unmarked x"
proof (induction s rule: t_replace_fences.induct)
  case 1
  show ?case by simp
next
  case (2 c cs)
  show ?case
  proof (cases "t_match_fence (c # cs)")
    case None
    with "2.IH"(1) [OF None] "2.prems" show ?thesis by simp
  next
    case (Some m)
    then obtain l cd r where m: "t_match_fence (c # cs) = Some (l, cd, r)"
      by (cases m) auto
    from set_match_fence [OF m] "2.prems"
    have parts: "\<forall>x \<in> set l. unmarked x" "\<forall>x \<in> set cd. unmarked x" "\<forall>x \<in> set r. unmarked x"
      by blast+
    from "2.IH"(2) [OF m refl refl parts(3)] unmarked_code_block [OF parts(1,2)]
    show ?thesis by (simp add: m ball_Un)
  qed
qed

lemma unmarked_replace_inline:
  "\<forall>x \<in> set s. unmarked x \<Longrightarrow> \<forall>x \<in> set (t_replace_inline s). unmarked x"
proof (induction s rule: t_replace_inline.induct)
  case 1
  show ?case by simp
next
  case (2 c cs)
  let ?run = "takeWhile (\<lambda>x. in_span (fst x)) cs"
  let ?d = "dropWhile (\<lambda>x. in_span (fst x)) cs"
  show ?case
  proof (cases "fst c = CHR 0x60 \<and> ?run \<noteq> [] \<and> map fst (take 1 ?d) = [CHR 0x60]")
    case True
    have "set (drop 1 ?d) \<subseteq> set cs"
      using set_drop_subset [of 1 ?d] by (auto dest: set_dropWhileD)
    with "2.prems" have "\<forall>x \<in> set (drop 1 ?d). unmarked x" by auto
    then have rest: "\<forall>x \<in> set (t_replace_inline (drop 1 ?d)). unmarked x"
      by (rule "2.IH"(1) [OF True])
    have run: "\<forall>x \<in> set ?run. unmarked x"
      using "2.prems" by (auto dest: set_takeWhileD)
    from True rest run unmarked_written show ?thesis by (simp add: ball_Un)
  next
    case False
    with "2.IH"(2) [OF False] "2.prems" show ?thesis by auto
  qed
qed

lemma unmarked_replace_paragraphs:
  "\<forall>x \<in> set s. unmarked x \<Longrightarrow> \<forall>x \<in> set (t_replace_paragraphs s). unmarked x"
proof (induction s rule: t_replace_paragraphs.induct)
  case 1
  show ?case by simp
next
  case (2 c cs)
  show ?case
  proof (cases "fst c = CHR 0x0A \<and> map fst (take 1 cs) = [CHR 0x0A]")
    case True
    have "\<forall>x \<in> set (dropWhile (\<lambda>x. fst x = CHR 0x0A) cs). unmarked x"
      using "2.prems" by (auto dest: set_dropWhileD)
    then have "\<forall>x \<in> set (t_replace_paragraphs (dropWhile (\<lambda>x. fst x = CHR 0x0A) cs)). unmarked x"
      by (rule "2.IH"(1) [OF True])
    with True unmarked_written show ?thesis by (simp add: ball_Un)
  next
    case False
    with "2.IH"(2) [OF False] "2.prems" show ?thesis by auto
  qed
qed

lemma unmarked_render_text: "\<forall>x \<in> set (t_render_text md). unmarked x"
  unfolding t_render_text_def
  using unmarked_written
    unmarked_replace_markup [OF unmarked_replace_paragraphs [OF unmarked_replace_inline
      [OF unmarked_replace_fences [OF unmarked_escapeHtml [of "from_input md"]]]],
      of "CHR 0x0A" "''<br>''"]
  by (simp add: ball_Un)

lemma safe_empty: "safe_markup []"
  by (simp add: safe_markup_def built_from.empty)



subsection \<open>Every ampersand starts an entity\<close>

lemma entity_shape: "t \<in> set entities \<Longrightarrow> \<exists>r. t = CHR ''&'' # r \<and> CHR ''&'' \<notin> set r"
  by (auto simp: entities_def)

lemma no_amp_in_markup: "t \<in> set markup_pieces \<Longrightarrow> CHR ''&'' \<notin> set t"
  by (auto simp: markup_pieces_def block_open_def block_toolbar_def block_attr_end_def
      block_close_def inline_open_def inline_close_def)

lemma built_from_amp:
  assumes "built_from (entities @ markup_pieces) s" and "s = a @ CHR ''&'' # b"
  shows "\<exists>e \<in> set entities. take (length e) (CHR ''&'' # b) = e"
  using assms
proof (induction arbitrary: a rule: built_from.induct)
  case empty
  then show ?case by simp
next
  case (char c s)
  from char.hyps(1) have "c \<noteq> CHR ''&''" by (auto simp: plain_def)
  with char.prems obtain a' where "s = a' @ CHR ''&'' # b"
    by (cases a) auto
  then show ?case by (rule char.IH)
next
  case (piece t s)
  from piece.prems obtain u where
    "(t = a @ u \<and> u @ s = CHR ''&'' # b) \<or> (t @ u = a \<and> s = u @ CHR ''&'' # b)"
    by (auto simp: append_eq_append_conv2)
  then show ?case
  proof
    assume r: "t @ u = a \<and> s = u @ CHR ''&'' # b"
    then show ?thesis using piece.IH [of u] by simp
  next
    assume l: "t = a @ u \<and> u @ s = CHR ''&'' # b"
    show ?thesis
    proof (cases u)
      case Nil
      with l have "s = [] @ CHR ''&'' # b" by simp
      then show ?thesis by (rule piece.IH)
    next
      case (Cons c u')
      with l have t: "t = a @ CHR ''&'' # u'" and b: "b = u' @ s" by auto
      then have "CHR ''&'' \<in> set t" by simp
      with piece.hyps(1) no_amp_in_markup [of t] have e: "t \<in> set entities" by auto
      then obtain r where r: "t = CHR ''&'' # r" "CHR ''&'' \<notin> set r"
        using entity_shape by blast
      have "a = []"
      proof (cases a)
        case Nil
        then show ?thesis .
      next
        case (Cons x a')
        with t r have "CHR ''&'' \<in> set r" by auto
        with r(2) show ?thesis by simp
      qed
      with t b have "take (length t) (CHR ''&'' # b) = t" by simp
      with e show ?thesis by blast
    qed
  qed
qed

lemma render_text_amp:
  assumes "render_text md = a @ CHR ''&'' # b"
  shows "\<exists>e \<in> set entities. take (length e) (CHR ''&'' # b) = e"
  using built_from_amp [OF _ assms] safe_render_text [of md]
  by (simp add: safe_markup_def)


subsection \<open>C6: the input is escaped before any markup is written\<close>

text \<open>
  C6. For every input text \<open>md\<close>, \<^verbatim>\<open>renderMarkdown\<close> returns the empty string for the empty
  text and otherwise \<^verbatim>\<open><p>\<close>, the four substitutions applied to \<^verbatim>\<open>escapeHtml(md)\<close>, and
  \<^verbatim>\<open></p>\<close>. \<^verbatim>\<open>escapeHtml(md)\<close> is the input with each of \<^verbatim>\<open>&\<close>, \<^verbatim>\<open><\<close>, \<^verbatim>\<open>>\<close>, \<^verbatim>\<open>"\<close> replaced by
  its entity, so it consists of entities and of characters that are none of the four.
  The output is safe markup: it is made of the fixed pieces of markup that the
  substitutions insert, of entities and of characters that are none of the four. At
  every \<^verbatim>\<open>&\<close> of the output one of the four entities begins. And of the characters of the output, read with
  their marks, those that come from the input are never \<^verbatim>\<open><\<close>, \<^verbatim>\<open>>\<close> or \<^verbatim>\<open>"\<close>: every such
  character of the output was written by the renderer.
\<close>

theorem renderMarkdown_escapes:
  "renderMarkdown (JStr md) = Some (if md = [] then [] else render_text md)
   \<and> render_text md =
       ''<p>'' @ replace_char (CHR 0x0A) ''<br>''
         (replace_paragraphs (replace_inline (replace_fences (escapeHtml md)))) @ ''</p>''
   \<and> escapeHtml md = concat (map escape_char md)
   \<and> escaped_text (escapeHtml md)
   \<and> safe_markup (if md = [] then [] else render_text md)
   \<and> (\<forall>a b. render_text md = a @ CHR ''&'' # b \<longrightarrow>
         (\<exists>e \<in> set entities. take (length e) (CHR ''&'' # b) = e))
   \<and> map fst (t_render_text md) = render_text md
   \<and> (\<forall>x \<in> set (t_render_text md).
         snd x \<longrightarrow> fst x \<notin> set [CHR ''<'', CHR ''>'', CHR 0x22])"
proof (intro conjI)
  show "renderMarkdown (JStr md) = Some (if md = [] then [] else render_text md)"
    by (simp add: renderMarkdown_def)
  show "render_text md =
       ''<p>'' @ replace_char (CHR 0x0A) ''<br>''
         (replace_paragraphs (replace_inline (replace_fences (escapeHtml md)))) @ ''</p>''"
    by (simp add: render_text_def)
  show "escapeHtml md = concat (map escape_char md)"
    by (rule escapeHtml_chars)
  show "escaped_text (escapeHtml md)"
    by (rule escaped_escapeHtml)
  show "safe_markup (if md = [] then [] else render_text md)"
    by (simp add: safe_empty safe_render_text)
  show "\<forall>a b. render_text md = a @ CHR ''&'' # b \<longrightarrow>
         (\<exists>e \<in> set entities. take (length e) (CHR ''&'' # b) = e)"
    using render_text_amp by blast
  show "map fst (t_render_text md) = render_text md"
    by (rule chars_render_text)
  show "\<forall>x \<in> set (t_render_text md). snd x \<longrightarrow> fst x \<notin> set [CHR ''<'', CHR ''>'', CHR 0x22]"
    using unmarked_render_text [of md] unfolding unmarked_def .
qed

text \<open>
  The witness renders a \<^verbatim>\<open>script\<close> element with a quoted argument: the two paragraph
  tags are written by the renderer, everything between them comes from the input and
  is escaped.
\<close>

theorem renderMarkdown_escapes_witness:
  \<open>renderMarkdown (JStr ''<script>alert("x")</script>'')
     = Some ''<p>&lt;script&gt;alert(&quot;x&quot;)&lt;/script&gt;</p>''
   \<and> safe_markup ''<p>&lt;script&gt;alert(&quot;x&quot;)&lt;/script&gt;</p>''
   \<and> escapeHtml ''<script>alert("x")</script>''
     = ''&lt;script&gt;alert(&quot;x&quot;)&lt;/script&gt;''
   \<and> t_render_text ''<script>alert("x")</script>''
     = written ''<p>'' @ from_input ''&lt;script&gt;alert(&quot;x&quot;)&lt;/script&gt;''
       @ written ''</p>''\<close>
proof -
  have e: \<open>render_text ''<script>alert("x")</script>''
     = ''<p>&lt;script&gt;alert(&quot;x&quot;)&lt;/script&gt;</p>''\<close>
    by code_simp
  have c: \<open>concat (map escape_char ''<script>alert("x")</script>'')
     = ''&lt;script&gt;alert(&quot;x&quot;)&lt;/script&gt;''\<close>
    by code_simp
  have t: \<open>t_render_text ''<script>alert("x")</script>''
     = written ''<p>'' @ from_input ''&lt;script&gt;alert(&quot;x&quot;)&lt;/script&gt;''
       @ written ''</p>''\<close>
    by code_simp
  show ?thesis
    using renderMarkdown_escapes [of \<open>''<script>alert("x")</script>''\<close>] e c t
    by auto
qed


subsection \<open>C7: the body of a fenced block\<close>

text \<open>
  C7 says that the body of a fenced block tagged \<^verbatim>\<open>python\<close> reaches the output as it
  was written, blank lines and backquotes included. The renderer keeps the tag, but the
  later substitutions run over the block it has just built. For the body \<^verbatim>\<open>a\<close>, blank
  line, \<^verbatim>\<open>b\<close> the paragraph substitution puts \<^verbatim>\<open></p><p>\<close> between the two lines, in the
  \<^verbatim>\<open>data-code\<close> attribute as well as in the \<^verbatim>\<open>code\<close> element; a single line feed becomes
  \<^verbatim>\<open><br>\<close>; and a pair of backquotes in the body becomes an inline \<^verbatim>\<open>code\<close> element, again
  in both places. What the fence substitution alone builds is the block with the body
  as written.
\<close>

theorem fenced_body_rewritten:
  "renderMarkdown (JStr ''```python\<newline>a\<newline>\<newline>b\<newline>```'')
     = Some (''<p>'' @ block_open @ ''python'' @ block_toolbar
             @ ''a</p><p>b'' @ block_attr_end @ ''a</p><p>b'' @ block_close @ ''</p>'')
   \<and> renderMarkdown (JStr ''```python\<newline>a\<newline>b\<newline>```'')
     = Some (''<p>'' @ block_open @ ''python'' @ block_toolbar
             @ ''a<br>b'' @ block_attr_end @ ''a<br>b'' @ block_close @ ''</p>'')
   \<and> renderMarkdown (JStr ''```python\<newline>print(`x`)\<newline>```'')
     = Some (''<p>'' @ block_open @ ''python'' @ block_toolbar
             @ ''print('' @ inline_open @ ''x'' @ inline_close @ '')'' @ block_attr_end
             @ ''print('' @ inline_open @ ''x'' @ inline_close @ '')'' @ block_close
             @ ''</p>'')
   \<and> replace_fences (escapeHtml ''```python\<newline>a\<newline>\<newline>b\<newline>```'')
     = block_open @ ''python'' @ block_toolbar
       @ ''a\<newline>\<newline>b'' @ block_attr_end @ ''a\<newline>\<newline>b'' @ block_close"
  by code_simp

text \<open>A body of one line without backquotes does come out as written.\<close>

lemma fenced_one_line_example:
  "renderMarkdown (JStr ''```python\<newline>print(1 < 2)\<newline>```'')
     = Some (''<p>'' @ block_open @ ''python'' @ block_toolbar
             @ ''print(1 &lt; 2)'' @ block_attr_end @ ''print(1 &lt; 2)'' @ block_close
             @ ''</p>'')"
  by code_simp

end
